theory Spec2Isabelle
  imports
    Complex_Main
    "HOL-Library.Word"
    "HOL-Library.Char_ord"
    "HOL-Library.List_Lexorder"
begin

unbundle bit_operations_syntax

section \<open>Python values\<close>

text \<open>
  A Python \<open>str\<close> is represented by its UTF-8 encoding, a \<^typ>\<open>string\<close> whose
  characters are bytes; \<open>s.encode('utf-8')\<close> is then \<open>map of_char s\<close>. A \<open>bytes\<close>
  value is a list of 8-bit words. Exceptions are values of \<open>py_error\<close>; the last
  constructor is the error kind the specification names and the sources never raise.
\<close>

type_synonym bytes = "8 word list"

datatype py_error =
    ValueError string
  | KeyError string
  | IndexError
  | Base64Error string
  | IntegrityError

definition encode_utf8 :: "string \<Rightarrow> bytes" where
  "encode_utf8 s = map of_char s"

section \<open>numpy arrays on a heap\<close>

text \<open>
  An \<open>np.ndarray\<close> of dtype int32 is an object with identity: a record of its samples and
  its \<open>flags.writeable\<close> bit, stored in a heap and referred to by its address (an index
  of the heap). \<open>copy()\<close> allocates a new, writeable array; element assignment is refused
  by numpy on an array that is not writeable.
\<close>

record ndarray =
  data :: "32 word list"
  writeable :: bool

type_synonym heap = "ndarray list"

definition np_copy :: "heap \<Rightarrow> nat \<Rightarrow> heap \<times> nat" where
  "np_copy h r = (h @ [\<lparr>data = data (h ! r), writeable = True\<rparr>], length h)"

definition np_getitem :: "heap \<Rightarrow> nat \<Rightarrow> nat \<Rightarrow> py_error + 32 word" where
  "np_getitem h r i =
     (if i < length (data (h ! r)) then Inr (data (h ! r) ! i) else Inl IndexError)"

definition np_setitem :: "heap \<Rightarrow> nat \<Rightarrow> nat \<Rightarrow> 32 word \<Rightarrow> py_error + heap" where
  "np_setitem h r i v =
     (if \<not> writeable (h ! r) then Inl (ValueError ''assignment destination is read-only'')
      else if i < length (data (h ! r))
        then Inr (h[r := (h ! r)\<lparr>data := (data (h ! r))[i := v]\<rparr>])
      else Inl IndexError)"

definition np_set_writeable :: "heap \<Rightarrow> nat \<Rightarrow> bool \<Rightarrow> heap" where
  "np_set_writeable h r f = h[r := (h ! r)\<lparr>writeable := f\<rparr>]"

section \<open>SignalWatermarking: the spatial (LSB) watermark\<close>

text \<open>
  The source builds the bit string as a \<open>str\<close> of the characters 0 and 1
  (\<open>f'{byte:08b}'\<close>, most significant bit first) and reads it back with \<open>int(bit)\<close> and
  \<open>int(byte, 2)\<close>. Here the bit string is a \<^typ>\<open>bool list\<close>, \<open>True\<close> for the
  character 1.
\<close>

definition byte_bits :: "8 word \<Rightarrow> bool list" where
  "byte_bits b = map (bit b) (rev [0..<8])"

definition bits_to_nat :: "bool list \<Rightarrow> nat" where
  "bits_to_nat bs = foldl (\<lambda>acc b. 2 * acc + of_bool b) 0 bs"

fun str_nat_digits :: "nat \<Rightarrow> nat \<Rightarrow> string" where
  "str_nat_digits 0 n = []"
| "str_nat_digits (Suc fuel) n =
     (if n < 10 then [char_of (48 + n)]
      else str_nat_digits fuel (n div 10) @ [char_of (48 + n mod 10)])"

definition str_nat :: "nat \<Rightarrow> string" where
  "str_nat n = str_nat_digits (Suc n) n"

definition watermark_bits :: "string \<Rightarrow> bool list" where
  "watermark_bits watermark_data =
     concat (map byte_bits (encode_utf8 watermark_data)) @ replicate (8 * 4) False"

fun lsb_loop :: "heap \<Rightarrow> nat \<Rightarrow> nat \<Rightarrow> bool list \<Rightarrow> py_error + heap" where
  "lsb_loop h w i [] = Inr h"
| "lsb_loop h w i (b # bs) =
     (case np_getitem h w i of
        Inl e \<Rightarrow> Inl e
      | Inr v \<Rightarrow>
          (case np_setitem h w i ((v AND NOT 1) OR of_bool b) of
             Inl e \<Rightarrow> Inl e
           | Inr h' \<Rightarrow> lsb_loop h' w (Suc i) bs))"

definition embed_lsb_watermark :: "heap \<Rightarrow> nat \<Rightarrow> string \<Rightarrow> py_error + (heap \<times> nat)" where
  "embed_lsb_watermark h signal watermark_data =
     (let bits = watermark_bits watermark_data in
      if length bits > length (data (h ! signal))
        then Inl (ValueError (''Signal too short: need '' @ str_nat (length bits) @
                    '' samples, have '' @ str_nat (length (data (h ! signal)))))
      else
        (let (h1, watermarked) = np_copy h signal in
         case lsb_loop h1 watermarked 0 bits of
           Inl e \<Rightarrow> Inl e
         | Inr h2 \<Rightarrow> Inr (h2, watermarked)))"

definition printable :: "nat \<Rightarrow> bool" where
  "printable char_code \<longleftrightarrow>
     (32 \<le> char_code \<and> char_code \<le> 126) \<or> char_code \<in> {9, 10, 13}"

function decode_loop :: "bool list \<Rightarrow> string \<Rightarrow> nat \<Rightarrow> string \<times> nat" where
  "decode_loop bits chars bit_errors =
     (let byte = take 8 bits in
      if length byte < 8 then (chars, bit_errors)
      else
        (let char_code = bits_to_nat byte in
         if char_code = 0 then (chars, bit_errors)
         else if printable char_code
           then decode_loop (drop 8 bits) (chars @ [char_of char_code]) bit_errors
         else decode_loop (drop 8 bits) (chars @ ''?'') (bit_errors + 1)))"
  by pat_completeness auto
termination
  by (relation "measure (\<lambda>(bits, chars, bit_errors). length bits)") auto

declare decode_loop.simps [simp del]

definition extract_lsb_watermark :: "heap \<Rightarrow> nat \<Rightarrow> nat \<Rightarrow> string \<times> real" where
  "extract_lsb_watermark h signal max_bytes =
     (let bits = map (\<lambda>val. val AND 1 \<noteq> 0) (take (max_bytes * 8) (data (h ! signal)));
          (chars, bit_errors) = decode_loop bits [] 0;
          confidence = 1 - real bit_errors / real (max (length chars) 1)
      in (chars, confidence))"

section \<open>Chain-of-custody events (PFEICS)\<close>

datatype ChainEventType =
    EVIDENCE_ACQUIRED
  | EVIDENCE_ENCRYPTED
  | WATERMARK_EMBEDDED
  | INTEGRITY_VERIFIED
  | INTEGRITY_FAILED
  | EXPORT_PERFORMED
  | IMPORT_PERFORMED
  | AI_ANALYSIS_RUN
  | CONTAINER_CREATED
  | EXAMINER_AUTH
  | TAMPER_SIMULATED

fun event_type_value :: "ChainEventType \<Rightarrow> string" where
  "event_type_value EVIDENCE_ACQUIRED = ''evidence_acquired''"
| "event_type_value EVIDENCE_ENCRYPTED = ''evidence_encrypted''"
| "event_type_value WATERMARK_EMBEDDED = ''watermark_embedded''"
| "event_type_value INTEGRITY_VERIFIED = ''integrity_verified''"
| "event_type_value INTEGRITY_FAILED = ''integrity_failed''"
| "event_type_value EXPORT_PERFORMED = ''export_performed''"
| "event_type_value IMPORT_PERFORMED = ''import_performed''"
| "event_type_value AI_ANALYSIS_RUN = ''ai_analysis_run''"
| "event_type_value CONTAINER_CREATED = ''container_created''"
| "event_type_value EXAMINER_AUTH = ''examiner_authenticated''"
| "event_type_value TAMPER_SIMULATED = ''tamper_simulated''"

text \<open>
  The values an \<open>event_data\<close> dictionary can hold: Python scalars, lists, tuples and
  dictionaries (insertion ordered, as association lists with distinct keys), and the
  numpy scalars and int32 arrays that \<open>json_serialize_safe\<close> converts. A float is
  represented by the real number it denotes.
\<close>

datatype pyval =
    PNone
  | PBool bool
  | PInt int
  | PFloat real
  | PStr string
  | PList "pyval list"
  | PTuple "pyval list"
  | PDict "(string \<times> pyval) list"
  | NpInteger int
  | NpFloating real
  | NpBool bool
  | NdArray "32 word list"

fun json_serialize_safe :: "pyval \<Rightarrow> pyval" where
  "json_serialize_safe (NpInteger i) = PFloat (of_int i)"
| "json_serialize_safe (NpFloating x) = PFloat x"
| "json_serialize_safe (NdArray xs) = PList (map (\<lambda>x. PInt (sint x)) xs)"
| "json_serialize_safe (NpBool b) = PBool b"
| "json_serialize_safe (PBool b) = PBool b"
| "json_serialize_safe (PDict kvs) = PDict (map (\<lambda>(k, v). (k, json_serialize_safe v)) kvs)"
| "json_serialize_safe (PList xs) = PList (map json_serialize_safe xs)"
| "json_serialize_safe (PTuple xs) = PList (map json_serialize_safe xs)"
| "json_serialize_safe obj = obj"

record ChainOfCustodyEvent =
  event_id :: int
  event_type :: ChainEventType
  timestamp :: string
  examiner_id :: string
  description :: string
  previous_hash :: string
  event_data :: "(string \<times> pyval) list"
  signature :: "string option"

text \<open>
  The library functions the ledger calls, taken as parameters: \<open>json.dumps(obj,
  sort_keys=True)\<close>, \<open>hashlib.sha512(b).hexdigest()\<close> and \<open>CryptoEngine.sign_data\<close>
  under the examiner's private key (RSA with PKCS#1 v1.5 over SHA-256, base64 encoded).
\<close>

record pylib =
  json_dumps :: "pyval \<Rightarrow> string"
  sha512_hexdigest :: "bytes \<Rightarrow> string"
  sign_data :: "bytes \<Rightarrow> string"

definition str_int :: "int \<Rightarrow> string" where
  "str_int i = (if i < 0 then ''-'' @ str_nat (nat (- i)) else str_nat (nat i))"

definition canonical :: "pylib \<Rightarrow> ChainOfCustodyEvent \<Rightarrow> string" where
  "canonical L e =
     str_int (event_id e) @ ''|'' @ event_type_value (event_type e) @ ''|'' @ timestamp e @ ''|'' @
     examiner_id e @ ''|'' @ description e @ ''|'' @ previous_hash e @ ''|'' @
     json_dumps L (PDict (event_data e))"

definition compute_hash :: "pylib \<Rightarrow> ChainOfCustodyEvent \<Rightarrow> string" where
  "compute_hash L e = sha512_hexdigest L (encode_utf8 (canonical L e))"

text \<open>\<open>d[k] = v\<close> on a dictionary: the value of an existing key is replaced in place, a new
  key is added at the end.\<close>

fun dict_set :: "(string \<times> pyval) list \<Rightarrow> string \<Rightarrow> pyval \<Rightarrow> (string \<times> pyval) list" where
  "dict_set [] k v = [(k, v)]"
| "dict_set ((k', v') # d) k v = (if k' = k then (k, v) # d else (k', v') # dict_set d k v)"

text \<open>\<open>asdict(event)\<close> with the event type replaced by its string value, as the signing
  branch of \<open>add_chain_event\<close> builds it.\<close>

definition event_dict :: "ChainOfCustodyEvent \<Rightarrow> pyval" where
  "event_dict e = PDict
     [(''event_id'', PInt (event_id e)),
      (''event_type'', PStr (event_type_value (event_type e))),
      (''timestamp'', PStr (timestamp e)),
      (''examiner_id'', PStr (examiner_id e)),
      (''description'', PStr (description e)),
      (''previous_hash'', PStr (previous_hash e)),
      (''event_data'', PDict (event_data e)),
      (''signature'', (case signature e of None \<Rightarrow> PNone | Some s \<Rightarrow> PStr s))]"

text \<open>
  The state of \<open>PFEICSEnhancedSystem\<close> that \<open>add_chain_event\<close> reads and writes: the event
  list, the running chain hash, whether an examiner key is loaded, and the text of the
  badge field of the form (the empty string when the form has no such field).
\<close>

record ledger_state =
  chain_events :: "ChainOfCustodyEvent list"
  chain_hash :: string
  examiner_private_key :: bool
  badge_id :: string

definition genesis_hash :: string where
  "genesis_hash = replicate 128 CHR ''0''"

definition initial_state :: "string \<Rightarrow> ledger_state" where
  "initial_state badge =
     \<lparr>chain_events = [], chain_hash = genesis_hash, examiner_private_key = False,
      badge_id = badge\<rparr>"

text \<open>
  \<open>add_chain_event\<close>. The clock reading \<open>datetime.utcnow().isoformat()\<close> is the argument
  \<open>now\<close>. In the source the local variable \<open>event_data\<close> and the field
  \<open>event.event_data\<close> are the same dictionary object, so the assignment
  \<open>event_data['event_hash'] = self.chain_hash\<close>, made after the hash was computed and
  before the event is appended, changes the event that is stored.
\<close>

definition add_chain_event ::
  "pylib \<Rightarrow> ledger_state \<Rightarrow> ChainEventType \<Rightarrow> string \<Rightarrow> (string \<times> pyval) list option \<Rightarrow> string
     \<Rightarrow> ledger_state" where
  "add_chain_event L s ty descr data_arg now =
     (let event_data0 = (case data_arg of None \<Rightarrow> [] | Some d \<Rightarrow> d);
          event_data1 = map (\<lambda>(k, v). (k, json_serialize_safe v)) event_data0;
          event = \<lparr>event_id = int (length (chain_events s)),
                   event_type = ty,
                   timestamp = now,
                   examiner_id = badge_id s,
                   description = descr,
                   previous_hash = chain_hash s,
                   event_data = event_data1,
                   signature = None\<rparr>;
          event = (if examiner_private_key s
                   then event\<lparr>signature :=
                          Some (sign_data L (encode_utf8 (json_dumps L (event_dict event))))\<rparr>
                   else event);
          new_hash = compute_hash L event;
          event = event\<lparr>event_data := dict_set event_data1 ''event_hash'' (PStr new_hash)\<rparr>
      in s\<lparr>chain_hash := new_hash, chain_events := chain_events s @ [event]\<rparr>)"

text \<open>A call of \<open>add_chain_event\<close>: event type, description, event data, clock reading.\<close>

type_synonym call = "ChainEventType \<times> string \<times> (string \<times> pyval) list option \<times> string"

fun run_calls :: "pylib \<Rightarrow> ledger_state \<Rightarrow> call list \<Rightarrow> ledger_state" where
  "run_calls L s [] = s"
| "run_calls L s ((ty, descr, d, now) # cs) = run_calls L (add_chain_event L s ty descr d now) cs"

text \<open>The event of a call as it is at the moment \<open>add_chain_event\<close> computes its hash:
  unsigned (the signature is not hashed) and without the \<open>event_hash\<close> entry.\<close>

definition hashed_event ::
  "ledger_state \<Rightarrow> ChainEventType \<Rightarrow> string \<Rightarrow> (string \<times> pyval) list option \<Rightarrow> string
     \<Rightarrow> ChainOfCustodyEvent" where
  "hashed_event s ty descr data_arg now =
     \<lparr>event_id = int (length (chain_events s)), event_type = ty, timestamp = now,
      examiner_id = badge_id s, description = descr, previous_hash = chain_hash s,
      event_data = map (\<lambda>(k, v). (k, json_serialize_safe v))
                     (case data_arg of None \<Rightarrow> [] | Some d \<Rightarrow> d),
      signature = None\<rparr>"

section \<open>EvidenceContainer\<close>

text \<open>
  The container holds references to its two arrays. \<open>set_raw_evidence\<close> has no statement
  that raises; its result is a sum so that a failure could be told from a success. The
  method \<open>EvidenceContainer.add_chain_event\<close> is named \<open>container_add_chain_event\<close>
  here, the name \<open>add_chain_event\<close> being that of the method of
  \<open>PFEICSEnhancedSystem\<close> above.
\<close>

record EvidenceContainer =
  raw_evidence :: "nat option"
  watermarked_evidence :: "nat option"
  chain :: "ChainOfCustodyEvent list"

definition new_container :: EvidenceContainer where
  "new_container = \<lparr>raw_evidence = None, watermarked_evidence = None, chain = []\<rparr>"

definition set_raw_evidence ::
  "heap \<Rightarrow> EvidenceContainer \<Rightarrow> nat \<Rightarrow> py_error + (heap \<times> EvidenceContainer)" where
  "set_raw_evidence h self signal =
     (let (h1, r) = np_copy h signal;
          h2 = np_set_writeable h1 r False
      in Inr (h2, self\<lparr>raw_evidence := Some r\<rparr>))"

definition set_watermarked_evidence ::
  "heap \<Rightarrow> EvidenceContainer \<Rightarrow> nat \<Rightarrow> py_error + (heap \<times> EvidenceContainer)" where
  "set_watermarked_evidence h self signal =
     (let (h1, r) = np_copy h signal
      in Inr (h1, self\<lparr>watermarked_evidence := Some r\<rparr>))"

definition container_add_chain_event :: "EvidenceContainer \<Rightarrow> ChainOfCustodyEvent \<Rightarrow> EvidenceContainer" where
  "container_add_chain_event self event = self\<lparr>chain := chain self @ [event]\<rparr>"

section \<open>ChainOfCustodyManager (forensic evidence system)\<close>

datatype UserRole = INVESTIGATOR | FORENSIC_ANALYST | SUPERVISOR | COURT | ADMIN

datatype ChainOfCustodyAction =
    SEIZED | UPLOADED | ACCESSED | ANALYZED | MODIFIED | EXPORTED | TRANSFERRED | VERIFIED

fun action_value :: "ChainOfCustodyAction \<Rightarrow> string" where
  "action_value SEIZED = ''seized''"
| "action_value UPLOADED = ''uploaded''"
| "action_value ACCESSED = ''accessed''"
| "action_value ANALYZED = ''analyzed''"
| "action_value MODIFIED = ''modified''"
| "action_value EXPORTED = ''exported''"
| "action_value TRANSFERRED = ''transferred''"
| "action_value VERIFIED = ''verified''"

text \<open>The field \<open>timestamp\<close> of an entry is named \<open>entry_timestamp\<close> here; the name
  \<open>timestamp\<close> is the field of the PFEICS event above.\<close>

record ChainOfCustodyEntry =
  entry_id :: string
  evidence_id :: string
  case_id :: string
  entry_timestamp :: string
  action :: ChainOfCustodyAction
  performed_by :: string
  user_role :: UserRole
  hash_before :: "string option"
  hash_after :: "string option"
  details :: string
  location :: "string option"
  device_info :: "string option"

text \<open>Truth value of an \<open>Optional[str]\<close>: \<open>None\<close> and the empty string are false.\<close>

definition truthy :: "string option \<Rightarrow> bool" where
  "truthy x = (case x of None \<Rightarrow> False | Some s \<Rightarrow> s \<noteq> [])"

definition is_tampering_detected :: "ChainOfCustodyEntry \<Rightarrow> bool" where
  "is_tampering_detected self =
     (if truthy (hash_before self) \<and> truthy (hash_after self) then
        (if action self \<in> {ACCESSED, VERIFIED, EXPORTED}
         then hash_before self \<noteq> hash_after self
         else False)
      else False)"

text \<open>
  The log file is a list of lines: the header and any other JSON object without an
  evidence identifier, an entry written by \<open>add_entry\<close>, or a line that cannot be parsed
  or rebuilt into an entry. Reading stops at the first line that raises and keeps what
  was read before it, as the \<open>try\<close> around the loop does.
\<close>

datatype log_line = Header_line | Entry_line ChainOfCustodyEntry | Broken_line

definition add_entry :: "log_line list \<Rightarrow> ChainOfCustodyEntry \<Rightarrow> log_line list" where
  "add_entry lines entry = lines @ [Entry_line entry]"

fun get_entries_for_evidence :: "log_line list \<Rightarrow> string \<Rightarrow> ChainOfCustodyEntry list" where
  "get_entries_for_evidence [] eid = []"
| "get_entries_for_evidence (Header_line # ls) eid = get_entries_for_evidence ls eid"
| "get_entries_for_evidence (Entry_line e # ls) eid =
     (if evidence_id e = eid then e # get_entries_for_evidence ls eid
      else get_entries_for_evidence ls eid)"
| "get_entries_for_evidence (Broken_line # ls) eid = []"

text \<open>
  The three kinds of issue \<open>verify_chain_integrity\<close> reports, with the loop index at which
  each is found, and the message the source formats for each.
\<close>

datatype issue =
    Timestamp_order nat
  | Hash_mismatch nat string string
  | Tampering nat ChainOfCustodyAction

fun issue_text :: "issue \<Rightarrow> string" where
  "issue_text (Timestamp_order i) = ''Timestamp order violation at entry '' @ str_nat i"
| "issue_text (Hash_mismatch i expected got) =
     ''Hash mismatch between entries '' @ str_nat (i - 1) @ '' and '' @ str_nat i @
     '': Expected '' @ expected @ '', got '' @ got"
| "issue_text (Tampering i a) =
     ''Potential tampering detected at entry '' @ str_nat i @
     '': Hash changed during '' @ action_value a @ '' action''"

fun issue_index :: "issue \<Rightarrow> nat" where
  "issue_index (Timestamp_order i) = i"
| "issue_index (Hash_mismatch i expected got) = i"
| "issue_index (Tampering i a) = i"

definition timestamp_issues :: "ChainOfCustodyEntry list \<Rightarrow> issue list" where
  "timestamp_issues entries =
     concat (map (\<lambda>i. if entry_timestamp (entries ! i) < entry_timestamp (entries ! (i - 1))
                        then [Timestamp_order i] else [])
                 [1..<length entries])"

definition hash_issues :: "ChainOfCustodyEntry list \<Rightarrow> issue list" where
  "hash_issues entries =
     concat (map (\<lambda>i. let prev_hash_after = hash_after (entries ! (i - 1));
                           curr_hash_before = hash_before (entries ! i)
                       in if truthy prev_hash_after \<and> truthy curr_hash_before
                             \<and> prev_hash_after \<noteq> curr_hash_before
                          then [Hash_mismatch i (the prev_hash_after) (the curr_hash_before)]
                          else [])
                 [1..<length entries])"

definition tampering_issues :: "ChainOfCustodyEntry list \<Rightarrow> issue list" where
  "tampering_issues entries =
     concat (map (\<lambda>i. if is_tampering_detected (entries ! i)
                        then [Tampering i (action (entries ! i))] else [])
                 [0..<length entries])"

definition chain_issues :: "ChainOfCustodyEntry list \<Rightarrow> issue list" where
  "chain_issues entries = timestamp_issues entries @ hash_issues entries @ tampering_issues entries"

definition verify_chain_integrity :: "log_line list \<Rightarrow> string \<Rightarrow> bool \<times> string list" where
  "verify_chain_integrity lines eid =
     (let entries = get_entries_for_evidence lines eid in
      if entries = [] then (False, [''No chain of custody entries found''])
      else (let issues = map issue_text (chain_issues entries)
            in (length issues = 0, issues)))"

text \<open>Two entries of one piece of evidence, used to run the verification on a concrete
  log: an upload, then an access that leaves the hash unchanged.\<close>

definition upload_entry :: ChainOfCustodyEntry where
  "upload_entry =
     \<lparr>entry_id = ''a1'', evidence_id = ''EV1'', case_id = ''C1'',
      entry_timestamp = ''2025-01-01T10:00:00'', action = UPLOADED, performed_by = ''ann'',
      user_role = INVESTIGATOR, hash_before = None, hash_after = Some ''aa'',
      details = ''uploaded'', location = None, device_info = None\<rparr>"

definition access_entry :: ChainOfCustodyEntry where
  "access_entry =
     \<lparr>entry_id = ''a2'', evidence_id = ''EV1'', case_id = ''C1'',
      entry_timestamp = ''2025-01-01T11:00:00'', action = ACCESSED, performed_by = ''bob'',
      user_role = COURT, hash_before = Some ''aa'', hash_after = Some ''aa'',
      details = ''viewed'', location = None, device_info = None\<rparr>"

section \<open>SignalWatermarking: the frequency-domain (DWT) watermark\<close>

subsection \<open>Strings and bytes\<close>

text \<open>
  \<open>s[:n]\<close> takes \<open>n\<close> characters of a \<open>str\<close>. On the UTF-8 representation a character
  is a lead byte and the continuation bytes (\<open>10xxxxxx\<close>) that follow it.
\<close>

definition utf8_cont :: "char \<Rightarrow> bool" where
  "utf8_cont c \<longleftrightarrow> (of_char c :: nat) div 64 = 2"

fun str_take :: "nat \<Rightarrow> string \<Rightarrow> string" where
  "str_take 0 s = []"
| "str_take (Suc n) [] = []"
| "str_take (Suc n) (c # s) = c # takeWhile utf8_cont s @ str_take n (dropWhile utf8_cont s)"

definition hex_value :: "char \<Rightarrow> nat option" where
  "hex_value c =
     (let n = (of_char c :: nat) in
      if 48 \<le> n \<and> n \<le> 57 then Some (n - 48)
      else if 97 \<le> n \<and> n \<le> 102 then Some (n - 87)
      else if 65 \<le> n \<and> n \<le> 70 then Some (n - 55)
      else None)"

definition is_space :: "char \<Rightarrow> bool" where
  "is_space c \<longleftrightarrow> (of_char c :: nat) \<in> {32, 9, 10, 11, 12, 13}"

text \<open>\<open>bytes.fromhex\<close>: ASCII whitespace before a byte is skipped, a byte is two
  hexadecimal digits, anything else raises \<open>ValueError\<close>.\<close>

fun fromhex :: "string \<Rightarrow> py_error + bytes" where
  "fromhex [] = Inr []"
| "fromhex (c # s) =
     (if is_space c then fromhex s
      else case hex_value c of
        None \<Rightarrow> Inl (ValueError ''non-hexadecimal number found in fromhex() arg'')
      | Some hi \<Rightarrow>
          (case s of
             [] \<Rightarrow> Inl (ValueError ''non-hexadecimal number found in fromhex() arg'')
           | d # s' \<Rightarrow>
               (case hex_value d of
                  None \<Rightarrow> Inl (ValueError ''non-hexadecimal number found in fromhex() arg'')
                | Some lo \<Rightarrow>
                    (case fromhex s' of
                       Inl e \<Rightarrow> Inl e
                     | Inr bs \<Rightarrow> Inr (of_nat (16 * hi + lo) # bs)))))"

text \<open>\<open>np.unpackbits\<close> of a \<open>uint8\<close> array: eight bits a byte, most significant first.\<close>

definition unpackbits :: "bytes \<Rightarrow> bool list" where
  "unpackbits bs = concat (map byte_bits bs)"

subsection \<open>The wavelet transform of PyWavelets\<close>

text \<open>
  \<open>pywt\<close> is not part of the repository. Its arithmetic is taken as a parameter: the
  value of each output coefficient of the single-level transform \<open>pywt.dwt(x, 'db4')\<close>
  and of each output sample of \<open>pywt.idwt(a, d, 'db4')\<close>, as functions of the inputs and
  of the output position. A \<open>float64\<close> is represented by the real number it denotes; the
  operations the source itself applies to floats (\<open>abs\<close>, \<open>max\<close>, negation, comparison
  with 0, conversion from \<open>int32\<close>) are exact on them.

  What is fixed is the shape of the results, as documented by PyWavelets: \<open>db4\<close> has 8
  filter taps; in the default \<open>symmetric\<close> mode a signal of \<open>n\<close> samples gives
  \<open>(n + 8 - 1) div 2\<close> approximation and as many detail coefficients; \<open>idwt\<close> of two
  arrays of \<open>n\<close> coefficients gives \<open>2 * n - 8 + 2\<close> samples; \<open>wavedec(x, w, level=n)\<close>
  returns \<open>[cA_n, cD_n, ..., cD_2, cD_1]\<close>, the coarsest detail first among the details
  and the first-level (finest) detail last; \<open>waverec\<close> drops the last approximation
  sample when the approximation is one longer than the next detail array.
\<close>

record wavelet_lib =
  dwt_approx :: "real list \<Rightarrow> nat \<Rightarrow> real"
  dwt_detail :: "real list \<Rightarrow> nat \<Rightarrow> real"
  idwt_sample :: "real list \<Rightarrow> real list \<Rightarrow> nat \<Rightarrow> real"

definition dec_len :: nat where
  "dec_len = 8"

definition dwt_coeff_len :: "nat \<Rightarrow> nat" where
  "dwt_coeff_len n = (n + dec_len - 1) div 2"

definition dwt :: "wavelet_lib \<Rightarrow> real list \<Rightarrow> real list \<times> real list" where
  "dwt W x =
     (map (dwt_approx W x) [0..<dwt_coeff_len (length x)],
      map (dwt_detail W x) [0..<dwt_coeff_len (length x)])"

definition idwt :: "wavelet_lib \<Rightarrow> real list \<Rightarrow> real list \<Rightarrow> py_error + real list" where
  "idwt W a d =
     (if length a \<noteq> length d then Inl (ValueError ''Coefficients arrays must have the same size.'')
      else if 2 * length a + 2 < dec_len
        then Inl (ValueError ''Invalid coefficient arrays length for specified wavelet.'')
      else Inr (map (idwt_sample W a d) [0..<2 * length a + 2 - dec_len]))"

fun wavedec_loop :: "wavelet_lib \<Rightarrow> real list \<Rightarrow> nat \<Rightarrow> real list list \<Rightarrow> real list list" where
  "wavedec_loop W a 0 coeffs_list = rev (coeffs_list @ [a])"
| "wavedec_loop W a (Suc k) coeffs_list =
     (let (a', d) = dwt W a in wavedec_loop W a' k (coeffs_list @ [d]))"

definition wavedec :: "wavelet_lib \<Rightarrow> real list \<Rightarrow> nat \<Rightarrow> real list list" where
  "wavedec W x level = wavedec_loop W x level []"

fun waverec_loop :: "wavelet_lib \<Rightarrow> real list \<Rightarrow> real list list \<Rightarrow> py_error + real list" where
  "waverec_loop W a [] = Inr a"
| "waverec_loop W a (d # ds) =
     (let a' = (if length a = length d + 1 then butlast a else a) in
      if length a' \<noteq> length d then Inl (ValueError ''coefficient shape mismatch'')
      else case idwt W a' d of
             Inl e \<Rightarrow> Inl e
           | Inr a'' \<Rightarrow> waverec_loop W a'' ds)"

definition waverec :: "wavelet_lib \<Rightarrow> real list list \<Rightarrow> py_error + real list" where
  "waverec W coeffs =
     (case coeffs of
        [] \<Rightarrow> Inl (ValueError ''Coefficient list too short (minimum 1 arrays required).'')
      | a # ds \<Rightarrow> waverec_loop W a ds)"

subsection \<open>Embedding and extraction\<close>

text \<open>\<open>astype(np.int32)\<close> on a float: truncation toward zero; a value out of range gives
  the smallest \<open>int32\<close>, as the conversion instruction of x86-64 does.\<close>

definition astype_int32 :: "real \<Rightarrow> 32 word" where
  "astype_int32 x =
     (let t = (if 0 \<le> x then \<lfloor>x\<rfloor> else \<lceil>x\<rceil>) in
      if - (2 ^ 31) \<le> t \<and> t < 2 ^ 31 then word_of_int t else word_of_int (- (2 ^ 31)))"

definition astype_float :: "32 word list \<Rightarrow> real list" where
  "astype_float signal = map (\<lambda>v. real_of_int (sint v)) signal"

definition sign_modulate :: "real list \<Rightarrow> bool list \<Rightarrow> real \<Rightarrow> real list" where
  "sign_modulate detail_coeffs bits strength =
     foldl (\<lambda>watermarked_detail (i, b).
              let val = max \<bar>detail_coeffs ! i\<bar> strength
              in watermarked_detail[i := (if b then val else - val)])
           detail_coeffs (enumerate 0 bits)"

definition embed_dwt_watermark ::
  "wavelet_lib \<Rightarrow> 32 word list \<Rightarrow> string \<Rightarrow> real \<Rightarrow> py_error + 32 word list" where
  "embed_dwt_watermark W signal watermark_hash strength =
     (case fromhex (str_take 32 watermark_hash) of
        Inl e \<Rightarrow> Inl e
      | Inr hash_bytes \<Rightarrow>
          (let bits = unpackbits hash_bytes;
               coeffs = wavedec W (astype_float signal) 3;
               detail_coeffs = coeffs ! 1
           in if length detail_coeffs < length bits
                then Inl (ValueError ''Signal too short for DWT watermarking'')
              else
                (case waverec W (coeffs[1 := sign_modulate detail_coeffs bits strength]) of
                   Inl e \<Rightarrow> Inl e
                 | Inr watermarked \<Rightarrow> Inr (map astype_int32 (take (length signal) watermarked)))))"

text \<open>The accuracy is a float; dividing zero matches by zero bits gives \<open>nan\<close>, which
  compares false with the threshold.\<close>

datatype np_float = Float real | NaN

definition extract_dwt_watermark ::
  "wavelet_lib \<Rightarrow> 32 word list \<Rightarrow> string \<Rightarrow> py_error + (bool \<times> np_float)" where
  "extract_dwt_watermark W signal original_hash =
     (case fromhex (str_take 32 original_hash) of
        Inl e \<Rightarrow> Inl e
      | Inr hash_bytes \<Rightarrow>
          (let bits = unpackbits hash_bytes;
               coeffs = wavedec W (astype_float signal) 3;
               detail_coeffs = coeffs ! 1;
               extracted = map (\<lambda>i. 0 \<le> detail_coeffs ! i)
                             [0..<min (length bits) (length detail_coeffs)]
           in if length extracted \<noteq> length bits
                then Inl (ValueError ''operands could not be broadcast together'')
              else
                (let matches = length (filter (\<lambda>(b, x). b = x) (zip bits extracted))
                 in if length bits = 0 then Inr (False, NaN)
                    else Inr (real matches / real (length bits) > 0.85,
                              Float (real matches / real (length bits))))))"

section \<open>CryptoEngine: authenticated encryption\<close>

subsection \<open>base64\<close>

text \<open>
  \<open>base64.b64encode\<close> and \<open>base64.b64decode\<close> (not validating) of the standard library,
  with the alphabet of RFC 4648. The decoder is the loop of \<open>binascii.a2b_base64\<close>: it
  skips every character outside the alphabet, stops at a complete padding and raises
  \<open>binascii.Error\<close>, a subclass of \<open>ValueError\<close>, when the data ends inside a group.
\<close>

definition b64_char :: "nat \<Rightarrow> char" where
  "b64_char n =
     char_of (if n < 26 then 65 + n else if n < 52 then 71 + n else if n < 62 then n - 4
              else if n = 62 then 43 else (47 :: nat))"

definition b64_value :: "char \<Rightarrow> nat option" where
  "b64_value c =
     (let n = (of_char c :: nat) in
      if 65 \<le> n \<and> n \<le> 90 then Some (n - 65)
      else if 97 \<le> n \<and> n \<le> 122 then Some (n - 71)
      else if 48 \<le> n \<and> n \<le> 57 then Some (n + 4)
      else if n = 43 then Some 62
      else if n = 47 then Some 63
      else None)"

fun b64encode :: "bytes \<Rightarrow> string" where
  "b64encode [] = []"
| "b64encode [a] =
     [b64_char (unat a div 4), b64_char (unat a mod 4 * 16), CHR ''='', CHR ''='']"
| "b64encode [a, b] =
     [b64_char (unat a div 4), b64_char (unat a mod 4 * 16 + unat b div 16),
      b64_char (unat b mod 16 * 4), CHR ''='']"
| "b64encode (a # b # c # rest) =
     [b64_char (unat a div 4), b64_char (unat a mod 4 * 16 + unat b div 16),
      b64_char (unat b mod 16 * 4 + unat c div 64), b64_char (unat c mod 64)]
     @ b64encode rest"

fun a2b_loop :: "nat \<Rightarrow> nat \<Rightarrow> nat \<Rightarrow> bytes \<Rightarrow> string \<Rightarrow> py_error + bytes" where
  "a2b_loop quad_pos leftchar pads bin_data [] =
     (if quad_pos \<noteq> 0 then
        (if quad_pos = 1
         then Inl (Base64Error ''Invalid base64-encoded string: number of data characters cannot be 1 more than a multiple of 4'')
         else Inl (Base64Error ''Incorrect padding''))
      else Inr bin_data)"
| "a2b_loop quad_pos leftchar pads bin_data (this_ch # rest) =
     (if this_ch = CHR ''='' then
        (if quad_pos \<ge> 2 \<and> quad_pos + (pads + 1) \<ge> 4 then Inr bin_data
         else a2b_loop quad_pos leftchar (if quad_pos \<ge> 2 then pads + 1 else pads) bin_data rest)
      else
        (case b64_value this_ch of
           None \<Rightarrow> a2b_loop quad_pos leftchar pads bin_data rest
         | Some v \<Rightarrow>
             (if quad_pos = 0 then a2b_loop 1 v 0 bin_data rest
              else if quad_pos = 1
                then a2b_loop 2 (v mod 16) 0 (bin_data @ [of_nat (leftchar * 4 + v div 16)]) rest
              else if quad_pos = 2
                then a2b_loop 3 (v mod 4) 0 (bin_data @ [of_nat (leftchar * 16 + v div 4)]) rest
              else a2b_loop 0 0 0 (bin_data @ [of_nat (leftchar * 64 + v)]) rest)))"

definition b64decode :: "string \<Rightarrow> py_error + bytes" where
  "b64decode s =
     (if \<exists>c \<in> set s. (of_char c :: nat) \<ge> 128
        then Inl (ValueError ''string argument should contain only ASCII characters'')
      else a2b_loop 0 0 0 [] s)"

subsection \<open>AES-256-GCM\<close>

text \<open>
  The cipher of PyCryptodome is a parameter, in the structure GCM has: the ciphertext is
  the plaintext XORed with a key stream that depends on the key, the nonce and the
  position; the tag is a function of key, nonce, associated data and ciphertext;
  \<open>decrypt_and_verify\<close> recomputes the tag and raises \<open>ValueError\<close> when it differs from
  the one given. \<open>AES.new\<close> refuses a key that is not 16, 24 or 32 bytes long and an
  empty nonce. \<open>hashlib.sha256\<close> is a parameter as well.
\<close>

record gcm_lib =
  keystream_byte :: "bytes \<Rightarrow> bytes \<Rightarrow> nat \<Rightarrow> 8 word"
  gcm_tag :: "bytes \<Rightarrow> bytes \<Rightarrow> bytes \<Rightarrow> bytes \<Rightarrow> bytes"
  sha256_hexdigest :: "bytes \<Rightarrow> string"

definition aes_new_gcm :: "bytes \<Rightarrow> bytes \<Rightarrow> py_error + unit" where
  "aes_new_gcm key nonce =
     (if length key \<notin> {16, 24, 32} then Inl (ValueError ''Incorrect AES key length'')
      else if nonce = [] then Inl (ValueError ''Nonce cannot be empty'')
      else Inr ())"

definition ctr_xor :: "gcm_lib \<Rightarrow> bytes \<Rightarrow> bytes \<Rightarrow> bytes \<Rightarrow> bytes" where
  "ctr_xor G key nonce bs = map (\<lambda>(i, b). b XOR keystream_byte G key nonce i) (enumerate 0 bs)"

definition encrypt_and_digest :: "gcm_lib \<Rightarrow> bytes \<Rightarrow> bytes \<Rightarrow> bytes \<Rightarrow> bytes \<Rightarrow> bytes \<times> bytes" where
  "encrypt_and_digest G key nonce aad plaintext =
     (let ciphertext = ctr_xor G key nonce plaintext
      in (ciphertext, gcm_tag G key nonce aad ciphertext))"

definition decrypt_and_verify ::
  "gcm_lib \<Rightarrow> bytes \<Rightarrow> bytes \<Rightarrow> bytes \<Rightarrow> bytes \<Rightarrow> bytes \<Rightarrow> py_error + bytes" where
  "decrypt_and_verify G key nonce aad ciphertext tag =
     (if gcm_tag G key nonce aad ciphertext = tag then Inr (ctr_xor G key nonce ciphertext)
      else Inl (ValueError ''MAC check failed''))"

subsection \<open>encrypt_data_gcm and decrypt_data_gcm\<close>

text \<open>
  The bundle is a dictionary from field names to strings. The two random draws of
  \<open>encrypt_data_gcm\<close>, the 32-byte key of \<open>get_random_bytes(32)\<close> and the nonce the cipher
  object picks, are arguments.
\<close>

type_synonym encrypted_bundle = "string \<rightharpoonup> string"

definition encrypt_data_gcm ::
  "gcm_lib \<Rightarrow> bytes \<Rightarrow> bytes \<Rightarrow> bytes \<Rightarrow> string \<Rightarrow> py_error + encrypted_bundle" where
  "encrypt_data_gcm G key nonce plaintext metadata =
     (case aes_new_gcm key nonce of
        Inl e \<Rightarrow> Inl e
      | Inr _ \<Rightarrow>
          (let (ciphertext, tag) = encrypt_and_digest G key nonce (encode_utf8 metadata) plaintext
           in Inr [''ciphertext'' \<mapsto> b64encode ciphertext,
                   ''nonce'' \<mapsto> b64encode nonce,
                   ''tag'' \<mapsto> b64encode tag,
                   ''key'' \<mapsto> b64encode key,
                   ''metadata_hash'' \<mapsto> sha256_hexdigest G (encode_utf8 metadata)]))"

definition getitem :: "encrypted_bundle \<Rightarrow> string \<Rightarrow> py_error + string" where
  "getitem d k = (case d k of None \<Rightarrow> Inl (KeyError k) | Some v \<Rightarrow> Inr v)"

definition b64decode_field :: "encrypted_bundle \<Rightarrow> string \<Rightarrow> py_error + bytes" where
  "b64decode_field d k = (case getitem d k of Inl e \<Rightarrow> Inl e | Inr v \<Rightarrow> b64decode v)"

definition decrypt_data_gcm :: "gcm_lib \<Rightarrow> encrypted_bundle \<Rightarrow> string \<Rightarrow> py_error + bytes" where
  "decrypt_data_gcm G encrypted_data metadata =
     (case b64decode_field encrypted_data ''key'' of Inl e \<Rightarrow> Inl e | Inr key \<Rightarrow>
      case b64decode_field encrypted_data ''nonce'' of Inl e \<Rightarrow> Inl e | Inr nonce \<Rightarrow>
      case b64decode_field encrypted_data ''tag'' of Inl e \<Rightarrow> Inl e | Inr tag \<Rightarrow>
      case b64decode_field encrypted_data ''ciphertext'' of Inl e \<Rightarrow> Inl e | Inr ciphertext \<Rightarrow>
      case aes_new_gcm key nonce of Inl e \<Rightarrow> Inl e | Inr _ \<Rightarrow>
      (case decrypt_and_verify G key nonce (encode_utf8 metadata) ciphertext tag of
         Inr plaintext \<Rightarrow> Inr plaintext
       | Inl _ \<Rightarrow> Inl (ValueError ''Decryption failed: Data tampered or metadata mismatch'')))"

text \<open>
  An instance of the cipher parameters, to run the two functions on concrete inputs. It
  has the structure above and is not AES: the key stream repeats the key, the tag is the
  first 16 bytes of the associated data followed by the ciphertext and zeros.
\<close>

definition example_gcm_lib :: gcm_lib where
  "example_gcm_lib =
     \<lparr>keystream_byte = (\<lambda>key nonce i. key ! (i mod length key)),
      gcm_tag = (\<lambda>key nonce aad ciphertext. take 16 (aad @ ciphertext @ replicate 16 0)),
      sha256_hexdigest = (\<lambda>b. [])\<rparr>"


section \<open>Proofs: the spatial watermark\<close>

lemma unat_of_char8: "unat (of_char c :: 8 word) = of_char c"
proof -
  have "(of_char c :: 8 word) = of_nat (of_char c)" by (simp only: of_nat_of_char)
  then have "unat (of_char c :: 8 word) = unat (of_nat (of_char c) :: 8 word)" by simp
  also have "\<dots> = of_char c mod 256" by (simp only: unat_of_nat) simp
  finally show ?thesis by simp
qed

lemma bits_to_nat_horner: "bits_to_nat bs = horner_sum of_bool 2 (rev bs)"
proof -
  have "foldl (\<lambda>acc b. 2 * acc + of_bool b) a bs = horner_sum of_bool 2 (rev bs) + a * 2 ^ length bs" for a :: nat
    by (induction bs arbitrary: a) (simp_all add: horner_sum_append algebra_simps)
  then show ?thesis by (simp add: bits_to_nat_def)
qed

lemma bits_to_nat_byte_bits: "bits_to_nat (byte_bits b) = unat b"
proof -
  have "bits_to_nat (byte_bits b) = horner_sum of_bool 2 (map (bit b) [0..<8])"
    by (simp only: bits_to_nat_horner byte_bits_def rev_map rev_rev_ident)
  also have "map (bit b) [0..<8] = map (bit (unat b)) [0..<8]"
    by (simp add: bit_unsigned_iff)
  also have "horner_sum of_bool 2 (map (bit (unat b)) [0..<8]) = take_bit 8 (unat b)"
    by (rule horner_sum_bit_eq_take_bit)
  also have "\<dots> = unat b"
    using unsigned_less [of b, where ?'a = nat] by (simp add: take_bit_nat_eq_self)
  finally show ?thesis .
qed

lemma length_byte_bits: "length (byte_bits b) = 8"
  by (simp add: byte_bits_def)

lemma lsb_loop_ok:
  assumes "w < length h" and "writeable (h ! w)" and "i + length bs \<le> length (data (h ! w))"
  shows "\<exists>d'. lsb_loop h w i bs = Inr (h[w := (h ! w)\<lparr>data := d'\<rparr>])
           \<and> length d' = length (data (h ! w))
           \<and> (\<forall>k < length d'. d' ! k =
                 (if i \<le> k \<and> k < i + length bs
                  then (data (h ! w) ! k AND NOT 1) OR of_bool (bs ! (k - i))
                  else data (h ! w) ! k))"
  using assms
proof (induction bs arbitrary: h i)
  case Nil
  have "h[w := (h ! w)\<lparr>data := data (h ! w)\<rparr>] = h"
    by (simp add: list_update_same_conv Nil.prems(1))
  then show ?case
    by (intro exI [of _ "data (h ! w)"]) auto
next
  case (Cons b bs)
  define d where "d = data (h ! w)"
  define v where "v = (d ! i AND NOT 1) OR of_bool b"
  define h1 where "h1 = h[w := (h ! w)\<lparr>data := d[i := v]\<rparr>]"
  from Cons.prems have i: "i < length d" by (simp add: d_def)
  have step: "lsb_loop h w i (b # bs) = lsb_loop h1 w (Suc i) bs"
    using Cons.prems i by (simp add: np_getitem_def np_setitem_def h1_def v_def d_def)
  have h1w: "h1 ! w = (h ! w)\<lparr>data := d[i := v]\<rparr>"
    using Cons.prems(1) by (simp add: h1_def)
  have d1: "data (h1 ! w) = d[i := v]" by (simp add: h1w)
  have p1: "w < length h1" using Cons.prems(1) by (simp add: h1_def)
  have p2: "writeable (h1 ! w)" using Cons.prems(2) by (simp add: h1w)
  have p3: "Suc i + length bs \<le> length (data (h1 ! w))"
    using Cons.prems(3) by (simp add: d1 d_def)
  from Cons.IH [OF p1 p2 p3]
  obtain d' where run: "lsb_loop h1 w (Suc i) bs = Inr (h1[w := (h1 ! w)\<lparr>data := d'\<rparr>])"
    and len: "length d' = length (data (h1 ! w))"
    and nth1: "\<forall>k < length d'. d' ! k =
                 (if Suc i \<le> k \<and> k < Suc i + length bs
                  then (data (h1 ! w) ! k AND NOT 1) OR of_bool (bs ! (k - Suc i))
                  else data (h1 ! w) ! k)"
    by blast
  have eq: "h1[w := (h1 ! w)\<lparr>data := d'\<rparr>] = h[w := (h ! w)\<lparr>data := d'\<rparr>]"
    by (simp add: h1w) (simp add: h1_def)
  have len': "length d' = length d" using len by (simp add: d1)
  have nth: "d' ! k = (if i \<le> k \<and> k < i + length (b # bs)
                  then (d ! k AND NOT 1) OR of_bool ((b # bs) ! (k - i))
                  else d ! k)" if k: "k < length d'" for k
  proof (cases "k = i")
    case True
    then show ?thesis using nth1 k i by (simp add: d1 v_def)
  next
    case False
    have "d' ! k = (if Suc i \<le> k \<and> k < Suc i + length bs
                  then (d[i := v] ! k AND NOT 1) OR of_bool (bs ! (k - Suc i))
                  else d[i := v] ! k)"
      using nth1 k by (simp only: d1)
    then show ?thesis using False by (auto simp: nth_Cons')
  qed
  show ?case
    unfolding d_def [symmetric]
    by (intro exI [of _ d'] conjI allI impI) (simp_all only: step run eq len' nth)
qed

lemma int_clear_lsb: "(x :: int) AND NOT 1 = 2 * (x div 2)"
proof (rule bit_eqI)
  fix n
  show "bit (x AND NOT 1) n = bit (2 * (x div 2)) n"
  proof (cases n)
    case 0
    have "\<not> bit (x AND NOT 1) 0"
      by (simp only: bit_and_iff bit_not_iff bit_1_iff) simp
    moreover have "\<not> bit (2 * (x div 2)) 0"
      by (simp only: bit_0) simp
    ultimately show ?thesis by (simp only: 0)
  next
    case (Suc m)
    have "bit (x AND NOT 1) (Suc m) = bit x (Suc m)"
      by (simp only: bit_and_iff bit_not_iff bit_1_iff) simp
    moreover have "bit (2 * (x div 2)) (Suc m) = bit x (Suc m)"
      by (simp only: bit_double_Suc_iff bit_Suc) simp
    ultimately show ?thesis by (simp only: Suc)
  qed
qed


lemma set_lsb_high: "((v AND NOT 1) OR of_bool b) AND NOT 1 = v AND NOT (1 :: 32 word)"
  by (rule bit_eqI) (auto simp: bit_simps)

lemma set_lsb_bit0: "((v AND NOT 1) OR of_bool b :: 32 word) AND 1 \<noteq> 0 \<longleftrightarrow> b"
proof -
  have "((v AND NOT 1) OR of_bool b :: 32 word) AND 1 = of_bool b"
    by (rule bit_eqI) (auto simp: bit_simps)
  then show ?thesis by (cases b) simp_all
qed

lemma sint_set_lsb:
  "sint ((v AND NOT 1) OR of_bool b :: 32 word) = 2 * (sint v div 2) + of_bool b"
proof -
  have "sint (NOT 1 :: 32 word) = NOT 1" by (simp add: signed_not_eq)
  moreover have "sint (of_bool b :: 32 word) = of_bool b" by (cases b) simp_all
  ultimately have "sint ((v AND NOT 1) OR of_bool b :: 32 word)
      = (sint v AND NOT 1) OR of_bool b"
    by (simp only: signed_or_eq signed_and_eq)
  moreover have "(sint v AND NOT 1) OR of_bool b = 2 * (sint v div 2) + of_bool b"
    by (simp only: int_clear_lsb) (simp add: or_one_eq)
  ultimately show ?thesis by simp
qed

lemma set_lsb_sint:
  fixes v :: "32 word"
  shows "\<bar>sint ((v AND NOT 1) OR of_bool b) - sint v\<bar> \<le> 1"
  unfolding sint_set_lsb by (cases b) simp_all

lemma embed_lsb_ok:
  assumes "length (watermark_bits wd) \<le> length (data (h ! signal))"
  shows "\<exists>d'. embed_lsb_watermark h signal wd
             = Inr (h @ [\<lparr>data = d', writeable = True\<rparr>], length h)
           \<and> length d' = length (data (h ! signal))
           \<and> (\<forall>k < length d'. d' ! k =
                 (if k < length (watermark_bits wd)
                  then (data (h ! signal) ! k AND NOT 1) OR of_bool (watermark_bits wd ! k)
                  else data (h ! signal) ! k))"
proof -
  define a where "a = \<lparr>data = data (h ! signal), writeable = True\<rparr>"
  define h1 where "h1 = h @ [a]"
  have w: "length h < length h1" and hw: "h1 ! length h = a"
    by (simp_all add: h1_def)
  have p2: "writeable (h1 ! length h)" by (simp add: hw a_def)
  have p3: "0 + length (watermark_bits wd) \<le> length (data (h1 ! length h))"
    using assms by (simp add: hw a_def)
  from lsb_loop_ok [OF w p2 p3]
  obtain d' where run: "lsb_loop h1 (length h) 0 (watermark_bits wd)
        = Inr (h1[length h := (h1 ! length h)\<lparr>data := d'\<rparr>])"
    and len: "length d' = length (data (h1 ! length h))"
    and nth: "\<forall>k < length d'. d' ! k =
                 (if 0 \<le> k \<and> k < 0 + length (watermark_bits wd)
                  then (data (h1 ! length h) ! k AND NOT 1) OR of_bool (watermark_bits wd ! (k - 0))
                  else data (h1 ! length h) ! k)"
    by blast
  have upd: "h1[length h := (h1 ! length h)\<lparr>data := d'\<rparr>] = h @ [\<lparr>data = d', writeable = True\<rparr>]"
    by (simp add: hw) (simp add: h1_def a_def)
  have emb: "embed_lsb_watermark h signal wd = Inr (h @ [\<lparr>data = d', writeable = True\<rparr>], length h)"
    using assms run upd by (simp add: embed_lsb_watermark_def np_copy_def h1_def a_def)
  have dd: "data (h1 ! length h) = data (h ! signal)" by (simp add: hw a_def)
  show ?thesis
    using emb len nth unfolding dd by (intro exI [of _ d']) simp
qed

lemma length_watermark_bits: "length (watermark_bits wd) = 8 * length (encode_utf8 wd) + 32"
  by (simp add: watermark_bits_def length_concat comp_def byte_bits_def sum_list_triv encode_utf8_def)

text \<open>
  Claim C9. When the signal holds at least \<open>8 * (byte length of the watermark) + 32\<close>
  samples, \<open>embed_lsb_watermark\<close> returns a new array (a fresh address of the heap),
  every array that existed before the call, the input among them, is left as it was, the
  new array has the input's length, its samples from index \<open>8 * bytes + 32\<close> on equal
  the input's, and every sample agrees with the input's on all bits but the least
  significant one, so that the two differ by at most 1 as signed integers.
\<close>

theorem embed_lsb_watermark_frame:
  assumes "signal < length h"
    and "8 * length (encode_utf8 wd) + 32 \<le> length (data (h ! signal))"
  shows "\<exists>h' w. embed_lsb_watermark h signal wd = Inr (h', w)
           \<and> w \<noteq> signal \<and> w < length h'
           \<and> (\<forall>r < length h. h' ! r = h ! r)
           \<and> length (data (h' ! w)) = length (data (h ! signal))
           \<and> (\<forall>k < length (data (h ! signal)).
                 (8 * length (encode_utf8 wd) + 32 \<le> k \<longrightarrow>
                    data (h' ! w) ! k = data (h ! signal) ! k)
               \<and> data (h' ! w) ! k AND NOT 1 = data (h ! signal) ! k AND NOT 1
               \<and> \<bar>sint (data (h' ! w) ! k) - sint (data (h ! signal) ! k)\<bar> \<le> 1)"
proof -
  have cap: "length (watermark_bits wd) \<le> length (data (h ! signal))"
    using assms(2) by (simp only: length_watermark_bits)
  from embed_lsb_ok [OF cap]
  obtain d' where emb: "embed_lsb_watermark h signal wd
             = Inr (h @ [\<lparr>data = d', writeable = True\<rparr>], length h)"
    and len: "length d' = length (data (h ! signal))"
    and nth: "\<And>k. k < length d' \<Longrightarrow> d' ! k =
                 (if k < length (watermark_bits wd)
                  then (data (h ! signal) ! k AND NOT 1) OR of_bool (watermark_bits wd ! k)
                  else data (h ! signal) ! k)"
    by blast
  let ?h' = "h @ [\<lparr>data = d', writeable = True\<rparr>]"
  have dw: "data (?h' ! length h) = d'" by simp
  have frame: "\<forall>r < length h. ?h' ! r = h ! r" by (simp add: nth_append)
  have pt: "(8 * length (encode_utf8 wd) + 32 \<le> k \<longrightarrow> d' ! k = data (h ! signal) ! k)
               \<and> d' ! k AND NOT 1 = data (h ! signal) ! k AND NOT 1
               \<and> \<bar>sint (d' ! k) - sint (data (h ! signal) ! k)\<bar> \<le> 1"
    if "k < length (data (h ! signal))" for k
  proof (cases "k < length (watermark_bits wd)")
    case True
    with that nth [of k] len
    have "d' ! k = (data (h ! signal) ! k AND NOT 1) OR of_bool (watermark_bits wd ! k)" by simp
    then show ?thesis
      using True by (simp only: set_lsb_high set_lsb_sint length_watermark_bits) simp
  next
    case False
    with that nth [of k] len have "d' ! k = data (h ! signal) ! k" by simp
    then show ?thesis by simp
  qed
  show ?thesis
    apply (intro exI [of _ ?h'] exI [of _ "length h"] conjI)
    subgoal by (rule emb)
    subgoal using assms(1) by simp
    subgoal by simp
    subgoal by (rule frame)
    subgoal by (simp only: dw len)
    subgoal unfolding dw using pt by blast
    done
qed

text \<open>
  The theorem of claim C9 at a concrete input: a read-only array of 45 samples of value 7
  and the watermark \<open>a\<close> (one byte, 40 bits with the terminator).
\<close>

theorem embed_lsb_watermark_frame_witness:
  "\<exists>h' w. embed_lsb_watermark [\<lparr>data = replicate 45 7, writeable = False\<rparr>] 0 ''a''
             = Inr (h', w)
         \<and> w \<noteq> 0
         \<and> h' ! 0 = \<lparr>data = replicate 45 7, writeable = False\<rparr>
         \<and> length (data (h' ! w)) = 45
         \<and> data (h' ! w) ! 44 = 7
         \<and> \<bar>sint (data (h' ! w) ! 3) - 7\<bar> \<le> 1"
proof -
  let ?h = "[\<lparr>data = replicate 45 (7 :: 32 word), writeable = False\<rparr>]"
  have "(0 :: nat) < length ?h" and "8 * length (encode_utf8 ''a'') + 32 \<le> length (data (?h ! 0))"
    by (simp_all add: encode_utf8_def)
  from embed_lsb_watermark_frame [OF this]
  obtain h' w where emb: "embed_lsb_watermark ?h 0 ''a'' = Inr (h', w)"
    and fresh: "w \<noteq> 0"
    and old: "\<forall>r < length ?h. h' ! r = ?h ! r"
    and len: "length (data (h' ! w)) = length (data (?h ! 0))"
    and pt: "\<forall>k < length (data (?h ! 0)).
                 (8 * length (encode_utf8 ''a'') + 32 \<le> k \<longrightarrow>
                    data (h' ! w) ! k = data (?h ! 0) ! k)
               \<and> data (h' ! w) ! k AND NOT 1 = data (?h ! 0) ! k AND NOT 1
               \<and> \<bar>sint (data (h' ! w) ! k) - sint (data (?h ! 0) ! k)\<bar> \<le> 1"
    by blast
  from old have "h' ! 0 = ?h ! 0" by simp
  moreover from pt have "data (h' ! w) ! 44 = data (?h ! 0) ! 44"
    by (simp add: encode_utf8_def)
  moreover from pt have "\<bar>sint (data (h' ! w) ! 3) - sint (data (?h ! 0) ! 3)\<bar> \<le> 1"
    by simp
  ultimately show ?thesis
    using emb fresh len by (intro exI [of _ h'] exI [of _ w]) simp
qed

lemma decode_loop_short: "length bits < 8 \<Longrightarrow> decode_loop bits chars e = (chars, e)"
  by (subst decode_loop.simps) simp

lemma bits_to_nat_zeros: "bits_to_nat (replicate n False) = 0"
  by (simp add: bits_to_nat_horner horner_sum_eq_sum)

lemma bits_to_nat_Cons8:
  "bits_to_nat [b7, b6, b5, b4, b3, b2, b1, b0] =
     128 * of_bool b7 + 64 * of_bool b6 + 32 * of_bool b5 + 16 * of_bool b4 +
     8 * of_bool b3 + 4 * of_bool b2 + 2 * of_bool b1 + of_bool b0"
  by (simp add: bits_to_nat_def)

lemma decode_loop_zero:
  "take 8 bits = replicate 8 False \<Longrightarrow> decode_loop bits chars e = (chars, e)"
  by (subst decode_loop.simps) (simp add: bits_to_nat_zeros Let_def)

lemma printable_nonzero: "printable n \<Longrightarrow> n \<noteq> 0"
  by (auto simp: printable_def)

lemma decode_loop_bytes:
  assumes "\<forall>c \<in> set s. printable (of_char c)"
  shows "decode_loop (concat (map byte_bits (encode_utf8 s)) @ rest) chars e
           = decode_loop rest (chars @ s) e"
  using assms
proof (induction s arbitrary: chars)
  case Nil
  then show ?case by (simp add: encode_utf8_def)
next
  case (Cons c s)
  let ?bits = "concat (map byte_bits (encode_utf8 (c # s))) @ rest"
  have tk: "take 8 ?bits = byte_bits (of_char c)"
    by (simp add: encode_utf8_def length_byte_bits)
  have dr: "drop 8 ?bits = concat (map byte_bits (encode_utf8 s)) @ rest"
    by (simp add: encode_utf8_def length_byte_bits)
  have code: "bits_to_nat (byte_bits (of_char c)) = of_char c"
    by (simp only: bits_to_nat_byte_bits unat_of_char8)
  have pr: "printable (of_char c)" using Cons.prems by simp
  have "decode_loop ?bits chars e
          = decode_loop (concat (map byte_bits (encode_utf8 s)) @ rest) (chars @ [c]) e"
    by (subst decode_loop.simps)
       (simp only: tk dr code Let_def length_byte_bits, simp add: pr printable_nonzero)
  also have "\<dots> = decode_loop rest ((chars @ [c]) @ s) e"
    using Cons.prems by (intro Cons.IH) simp
  finally show ?case by simp
qed

lemma decode_loop_terminated:
  assumes "\<forall>c \<in> set s. printable (of_char c)"
    and "length rest < 8 \<or> take 8 rest = replicate 8 False"
  shows "decode_loop (concat (map byte_bits (encode_utf8 s)) @ rest) [] 0 = (s, 0)"
proof -
  have "decode_loop rest ([] @ s) 0 = (s, 0)"
    using assms(2) by (auto simp: decode_loop_short decode_loop_zero)
  then show ?thesis by (simp only: decode_loop_bytes [OF assms(1)])
qed

text \<open>
  Claim C4, as amended. Let the fingerprint consist of printable characters only (codes 32
  to 126, or tab, line feed, carriage return), let it be at most \<open>max_bytes\<close> bytes long
  (1000 by default) and let the signal hold at least \<open>8 * bytes + 32\<close> samples. Then
  embedding succeeds and extraction from the embedded signal returns the fingerprint with
  confidence 1.
\<close>

theorem lsb_watermark_roundtrip:
  assumes "8 * length (encode_utf8 fp) + 32 \<le> length (data (h ! signal))"
    and "\<forall>c \<in> set fp. printable (of_char c)"
    and "length (encode_utf8 fp) \<le> max_bytes"
  shows "\<exists>h' w. embed_lsb_watermark h signal fp = Inr (h', w)
           \<and> extract_lsb_watermark h' w max_bytes = (fp, 1)"
proof -
  let ?wb = "watermark_bits fp"
  let ?n = "length (encode_utf8 fp)"
  have cap: "length ?wb \<le> length (data (h ! signal))"
    using assms(1) by (simp only: length_watermark_bits)
  from embed_lsb_ok [OF cap]
  obtain d' where emb: "embed_lsb_watermark h signal fp
             = Inr (h @ [\<lparr>data = d', writeable = True\<rparr>], length h)"
    and len: "length d' = length (data (h ! signal))"
    and nth: "\<And>k. k < length d' \<Longrightarrow> d' ! k =
                 (if k < length ?wb
                  then (data (h ! signal) ! k AND NOT 1) OR of_bool (?wb ! k)
                  else data (h ! signal) ! k)"
    by blast
  let ?lsb = "\<lambda>val :: 32 word. val AND 1 \<noteq> 0"
  have pre: "map ?lsb (take (length ?wb) d') = ?wb"
  proof (rule nth_equalityI)
    show "length (map ?lsb (take (length ?wb) d')) = length ?wb"
      using cap len by simp
  next
    fix k assume "k < length (map ?lsb (take (length ?wb) d'))"
    then have k: "k < length ?wb" "k < length d'" by simp_all
    then have "d' ! k = (data (h ! signal) ! k AND NOT 1) OR of_bool (?wb ! k)"
      using nth [of k] by simp
    then have "?lsb (d' ! k) = ?wb ! k"
      by (simp only: set_lsb_bit0)
    then show "map ?lsb (take (length ?wb) d') ! k = ?wb ! k"
      using k by simp
  qed
  define tail where "tail = map ?lsb (drop (length ?wb) d')"
  have all: "map ?lsb d' = concat (map byte_bits (encode_utf8 fp)) @ replicate 32 False @ tail"
  proof -
    have "map ?lsb d' = map ?lsb (take (length ?wb) d') @ tail"
      unfolding tail_def by (simp only: map_append [symmetric] append_take_drop_id)
    then show ?thesis by (simp only: pre) (simp add: watermark_bits_def)
  qed
  have lc: "length (concat (map byte_bits (encode_utf8 fp))) = 8 * ?n"
    by (simp add: length_concat comp_def byte_bits_def sum_list_triv)
  define rest where "rest = take (max_bytes * 8 - 8 * ?n) (replicate 32 False @ tail)"
  have bits: "map ?lsb (take (max_bytes * 8) d')
                = concat (map byte_bits (encode_utf8 fp)) @ rest"
    using assms(3) by (simp add: take_map [symmetric] all lc rest_def)
  have rest: "length rest < 8 \<or> take 8 rest = replicate 8 False"
  proof (cases "max_bytes = ?n")
    case True
    then show ?thesis by (simp add: rest_def)
  next
    case False
    with assms(3) have "8 \<le> max_bytes * 8 - 8 * ?n" by simp
    then have "take 8 rest = take 8 (replicate 32 False @ tail)"
      by (simp add: rest_def min_def)
    then show ?thesis by simp
  qed
  have dec: "decode_loop (map ?lsb (take (max_bytes * 8) d')) [] 0 = (fp, 0)"
    by (simp only: bits decode_loop_terminated [OF assms(2) rest])
  have "extract_lsb_watermark (h @ [\<lparr>data = d', writeable = True\<rparr>]) (length h) max_bytes = (fp, 1)"
    by (simp add: extract_lsb_watermark_def dec)
  with emb show ?thesis by blast
qed

text \<open>
  The round trip at a concrete input: 56 samples, the fingerprint \<open>a3f\<close>, the default
  \<open>max_bytes = 1000\<close>.
\<close>

theorem lsb_watermark_roundtrip_witness:
  "\<exists>h' w. embed_lsb_watermark [\<lparr>data = replicate 56 1000, writeable = False\<rparr>] 0 ''a3f''
             = Inr (h', w)
         \<and> extract_lsb_watermark h' w 1000 = (''a3f'', 1)"
  by (rule lsb_watermark_roundtrip) (simp_all add: encode_utf8_def printable_def)

text \<open>
  Claim C4 as stated fails for a fingerprint with a character outside the printable range.
  The fingerprint below is the one-character string U+00E9, two bytes in UTF-8; the signal
  has the 48 samples the claim asks for. Embedding succeeds, and extraction returns two
  question marks with confidence 0.
\<close>

theorem lsb_watermark_roundtrip_counterexample:
  "embed_lsb_watermark [\<lparr>data = replicate 48 0, writeable = True\<rparr>] 0 [CHR 0xC3, CHR 0xA9]
     = Inr ([\<lparr>data = replicate 48 0, writeable = True\<rparr>,
             \<lparr>data = [1, 1, 0, 0, 0, 0, 1, 1, 1, 0, 1, 0, 1, 0, 0, 1] @ replicate 32 0,
              writeable = True\<rparr>], 1)
   \<and> extract_lsb_watermark
         [\<lparr>data = replicate 48 0, writeable = True\<rparr>,
          \<lparr>data = [1, 1, 0, 0, 0, 0, 1, 1, 1, 0, 1, 0, 1, 0, 0, 1] @ replicate 32 0,
           writeable = True\<rparr>] 1 1000
     = (''??'', 0)
   \<and> (''??'', 0 :: real) \<noteq> ([CHR 0xC3, CHR 0xA9], 1)"
  proof (intro conjI)
  show "embed_lsb_watermark [\<lparr>data = replicate 48 0, writeable = True\<rparr>] 0 [CHR 0xC3, CHR 0xA9]
     = Inr ([\<lparr>data = replicate 48 0, writeable = True\<rparr>,
             \<lparr>data = [1, 1, 0, 0, 0, 0, 1, 1, 1, 0, 1, 0, 1, 0, 0, 1] @ replicate 32 0,
              writeable = True\<rparr>], 1)"
    by (simp add: embed_lsb_watermark_def watermark_bits_def encode_utf8_def byte_bits_def
          np_copy_def np_getitem_def np_setitem_def upt_rec bit_numeral_simps numeral_eq_Suc)
  show "extract_lsb_watermark
         [\<lparr>data = replicate 48 0, writeable = True\<rparr>,
          \<lparr>data = [1, 1, 0, 0, 0, 0, 1, 1, 1, 0, 1, 0, 1, 0, 0, 1] @ replicate 32 0,
           writeable = True\<rparr>] 1 1000
     = (''??'', 0)"
    by (simp add: extract_lsb_watermark_def decode_loop.simps bits_to_nat_Cons8
          bits_to_nat_zeros printable_def Let_def)
  show "(''??'', 0 :: real) \<noteq> ([CHR 0xC3, CHR 0xA9], 1)"
    by simp
qed

section \<open>Proofs: the evidence container\<close>

text \<open>
  Claim C7, as amended. \<open>set_raw_evidence\<close> stores a copy of the signal at a fresh
  address, marked read-only, and leaves every earlier array as it was; an element
  assignment to the stored copy fails with numpy's read-only error. A later call of
  \<open>set_raw_evidence\<close> on the same container does not fail: it stores a read-only copy of
  the new signal and makes the container refer to it, the earlier copy staying unchanged
  in memory.
\<close>

theorem set_raw_evidence_read_only_copy:
  "\<exists>h' c'. set_raw_evidence h c signal = Inr (h', c')
      \<and> raw_evidence c' = Some (length h)
      \<and> take (length h) h' = h
      \<and> h' ! length h = \<lparr>data = data (h ! signal), writeable = False\<rparr>
      \<and> np_setitem h' (length h) i v = Inl (ValueError ''assignment destination is read-only'')
      \<and> (\<exists>h'' c''. set_raw_evidence h' c' signal2 = Inr (h'', c'')
            \<and> raw_evidence c'' = Some (length h')
            \<and> h'' ! length h' = \<lparr>data = data (h' ! signal2), writeable = False\<rparr>
            \<and> take (length h') h'' = h')"
  by (simp add: set_raw_evidence_def np_copy_def np_set_writeable_def np_setitem_def)

text \<open>
  Claim C7 as stated fails. On a heap with the arrays \<open>[1, 2, 3]\<close> and \<open>[9, 9]\<close>, the
  first call stores a copy of \<open>[1, 2, 3]\<close> at address 2; the second call, on the same
  container, returns normally and the container refers to a copy of \<open>[9, 9]\<close> at
  address 3.
\<close>

theorem set_raw_evidence_counterexample:
  "set_raw_evidence [\<lparr>data = [1, 2, 3], writeable = True\<rparr>, \<lparr>data = [9, 9], writeable = True\<rparr>]
        new_container 0
     = Inr ([\<lparr>data = [1, 2, 3], writeable = True\<rparr>, \<lparr>data = [9, 9], writeable = True\<rparr>,
             \<lparr>data = [1, 2, 3], writeable = False\<rparr>], new_container\<lparr>raw_evidence := Some 2\<rparr>)
   \<and> set_raw_evidence
        [\<lparr>data = [1, 2, 3], writeable = True\<rparr>, \<lparr>data = [9, 9], writeable = True\<rparr>,
         \<lparr>data = [1, 2, 3], writeable = False\<rparr>]
        (new_container\<lparr>raw_evidence := Some 2\<rparr>) 1
     = Inr ([\<lparr>data = [1, 2, 3], writeable = True\<rparr>, \<lparr>data = [9, 9], writeable = True\<rparr>,
             \<lparr>data = [1, 2, 3], writeable = False\<rparr>, \<lparr>data = [9, 9], writeable = False\<rparr>],
            new_container\<lparr>raw_evidence := Some 3\<rparr>)"
  by (simp add: set_raw_evidence_def np_copy_def np_set_writeable_def new_container_def)

section \<open>Proofs: the PFEICS event chain\<close>

lemma canonical_signature: "canonical L (e\<lparr>signature := sg\<rparr>) = canonical L e"
  by (simp add: canonical_def)

lemma compute_hash_signature: "compute_hash L (e\<lparr>signature := sg\<rparr>) = compute_hash L e"
  by (simp add: compute_hash_def canonical_signature)

lemma add_chain_event_unfold:
  "\<exists>sg. add_chain_event L s ty descr d now =
     s\<lparr>chain_hash := compute_hash L (hashed_event s ty descr d now),
       chain_events := chain_events s @
         [(hashed_event s ty descr d now)
            \<lparr>event_data := dict_set (event_data (hashed_event s ty descr d now)) ''event_hash''
                              (PStr (compute_hash L (hashed_event s ty descr d now))),
             signature := sg\<rparr>]\<rparr>"
proof (cases "examiner_private_key s")
  case True
  then show ?thesis
    by (intro exI [of _ "Some (sign_data L (encode_utf8 (json_dumps L
           (event_dict (hashed_event s ty descr d now)))))"])
       (simp add: add_chain_event_def hashed_event_def Let_def compute_hash_signature)
next
  case False
  then show ?thesis
    by (intro exI [of _ None])
       (simp add: add_chain_event_def hashed_event_def Let_def)
qed

lemma add_chain_event_prefix:
  "take (length (chain_events s)) (chain_events (add_chain_event L s ty descr d now)) = chain_events s"
  "length (chain_events (add_chain_event L s ty descr d now)) = Suc (length (chain_events s))"
  using add_chain_event_unfold [of L s ty descr d now] by auto

lemma run_calls_prefix:
  "length (chain_events s) \<le> length (chain_events (run_calls L s cs)) \<and>
   take (length (chain_events s)) (chain_events (run_calls L s cs)) = chain_events s"
proof (induction cs arbitrary: s)
  case Nil
  then show ?case by simp
next
  case (Cons c cs)
  obtain ty descr d now where c: "c = (ty, descr, d, now)" by (cases c) auto
  let ?s1 = "add_chain_event L s ty descr d now"
  from Cons.IH [of ?s1]
  have le: "length (chain_events ?s1) \<le> length (chain_events (run_calls L ?s1 cs))"
    and tk: "take (length (chain_events ?s1)) (chain_events (run_calls L ?s1 cs)) = chain_events ?s1"
    by simp_all
  have len1: "length (chain_events ?s1) = Suc (length (chain_events s))"
    by (rule add_chain_event_prefix)
  have tk': "take (Suc (length (chain_events s))) (chain_events (run_calls L ?s1 cs)) = chain_events ?s1"
    using tk by (simp only: len1)
  have "take (length (chain_events s)) (chain_events (run_calls L ?s1 cs))
      = take (length (chain_events s))
          (take (Suc (length (chain_events s))) (chain_events (run_calls L ?s1 cs)))"
    by (simp add: min_def)
  also have "\<dots> = take (length (chain_events s)) (chain_events ?s1)"
    by (simp only: tk')
  also have "\<dots> = chain_events s"
    by (rule add_chain_event_prefix)
  finally show ?case using le by (simp add: c len1)
qed

lemma map_of_dict_set: "map_of (dict_set d k v) k = Some v"
  by (induction d) auto

lemma add_chain_event_chain_hash:
  "chain_hash (add_chain_event L s ty descr d now) = compute_hash L (hashed_event s ty descr d now)"
  using add_chain_event_unfold [of L s ty descr d now] by auto

lemma add_chain_event_last:
  "\<exists>sg. last (chain_events (add_chain_event L s ty descr d now)) =
     (hashed_event s ty descr d now)
        \<lparr>event_data := dict_set (event_data (hashed_event s ty descr d now)) ''event_hash''
                          (PStr (compute_hash L (hashed_event s ty descr d now))),
         signature := sg\<rparr>"
  using add_chain_event_unfold [of L s ty descr d now] by auto

lemma add_chain_event_events:
  "chain_events (add_chain_event L s ty descr d now) =
     chain_events s @ [last (chain_events (add_chain_event L s ty descr d now))]"
  using add_chain_event_unfold [of L s ty descr d now] by auto

lemma run_calls_genesis:
  assumes "cs \<noteq> []"
  shows "previous_hash (chain_events (run_calls L (initial_state b) cs) ! 0) = genesis_hash"
proof -
  obtain ty descr d now cs' where cs: "cs = (ty, descr, d, now) # cs'"
    using assms by (cases cs) auto
  let ?s1 = "add_chain_event L (initial_state b) ty descr d now"
  have s1: "chain_events ?s1 = [last (chain_events ?s1)]"
    using add_chain_event_events [of L "initial_state b" ty descr d now]
    by (simp add: initial_state_def)
  have ph: "previous_hash (last (chain_events ?s1)) = genesis_hash"
    using add_chain_event_last [of L "initial_state b" ty descr d now]
    by (auto simp: hashed_event_def initial_state_def)
  from run_calls_prefix [of ?s1 L cs']
  have "take (length (chain_events ?s1)) (chain_events (run_calls L ?s1 cs')) = chain_events ?s1"
    and "length (chain_events ?s1) \<le> length (chain_events (run_calls L ?s1 cs'))"
    by simp_all
  then have "chain_events (run_calls L ?s1 cs') ! 0 = chain_events ?s1 ! 0"
    using s1 by (metis length_Cons less_Suc_eq_0_disj nth_take)
  then show ?thesis using s1 ph by (simp add: cs) (metis nth_Cons_0)
qed

text \<open>
  Two successive calls of \<open>add_chain_event\<close> from any state: both events are appended and
  nothing before them changes; the second is linked to the hash that was computed for
  the first before the entry \<open>event_hash\<close> was put into its data.
\<close>

lemma add_chain_event_two_calls:
  "let s1 = add_chain_event L s ty descr d now;
       e = last (chain_events s1);
       s2 = add_chain_event L s1 ty' descr' d' now';
       e' = last (chain_events s2);
       hashed = hashed_event s ty descr d now
   in chain_events s2 = chain_events s @ [e, e']
    \<and> previous_hash e = chain_hash s
    \<and> previous_hash e' = compute_hash L hashed
    \<and> event_data e = dict_set (event_data hashed) ''event_hash'' (PStr (previous_hash e'))
    \<and> compute_hash L e =
        compute_hash L (hashed\<lparr>event_data :=
           dict_set (event_data hashed) ''event_hash'' (PStr (previous_hash e'))\<rparr>)"
proof -
  let ?s1 = "add_chain_event L s ty descr d now"
  let ?s2 = "add_chain_event L ?s1 ty' descr' d' now'"
  let ?h = "hashed_event s ty descr d now"
  obtain sg where e: "last (chain_events ?s1) =
       ?h\<lparr>event_data := dict_set (event_data ?h) ''event_hash'' (PStr (compute_hash L ?h)),
          signature := sg\<rparr>"
    using add_chain_event_last by blast
  obtain sg' where e': "last (chain_events ?s2) =
       (hashed_event ?s1 ty' descr' d' now')
          \<lparr>event_data := dict_set (event_data (hashed_event ?s1 ty' descr' d' now')) ''event_hash''
                            (PStr (compute_hash L (hashed_event ?s1 ty' descr' d' now'))),
           signature := sg'\<rparr>"
    using add_chain_event_last by blast
  have ph': "previous_hash (last (chain_events ?s2)) = compute_hash L ?h"
    by (simp add: e' hashed_event_def add_chain_event_chain_hash)
  have ph: "previous_hash (last (chain_events ?s1)) = chain_hash s"
    by (simp add: e hashed_event_def)
  have ev: "chain_events ?s2 = chain_events s @ [last (chain_events ?s1), last (chain_events ?s2)]"
    using add_chain_event_events [of L ?s1 ty' descr' d' now']
          add_chain_event_events [of L s ty descr d now]
    by (metis append.assoc append_Cons append_Nil)
  have dt: "event_data (last (chain_events ?s1))
              = dict_set (event_data ?h) ''event_hash'' (PStr (compute_hash L ?h))"
    by (simp add: e)
  have ch: "compute_hash L (last (chain_events ?s1)) =
        compute_hash L (?h\<lparr>event_data :=
           dict_set (event_data ?h) ''event_hash'' (PStr (compute_hash L ?h))\<rparr>)"
    by (simp add: e compute_hash_signature)
  show ?thesis
    unfolding Let_def using ev ph ph' dt ch by simp
qed

lemma str_int_0: "str_int 0 = ''0''"
  by code_simp

text \<open>
  Claim C1, on the first two calls of \<open>add_chain_event\<close> after start-up, with the event
  data left at its default. The chain holds the two events; the previous hash of the
  first is the genesis value; the previous hash of the second is the SHA-512 of the
  canonical string of the first event with the data \<open>{}\<close>, as it was when
  \<open>add_chain_event\<close> hashed it. The first event as stored has the data
  \<open>{'event_hash': h}\<close>, where \<open>h\<close> is that very hash, so \<open>compute_hash\<close> on the stored
  event is the SHA-512 of another string: the same fields followed by the serialisation
  of \<open>{'event_hash': h}\<close>. The recomputed hash of event 0 equals the previous hash of
  event 1 only if SHA-512 gives the same digest for these two strings.
\<close>

theorem add_chain_event_stored_event_hash:
  "let s1 = add_chain_event L (initial_state badge) ty descr None now;
       s2 = add_chain_event L s1 ty' descr' None now';
       e0 = chain_events s2 ! 0;
       e1 = chain_events s2 ! 1;
       fields = ''0|'' @ event_type_value ty @ ''|'' @ now @ ''|'' @ badge @ ''|'' @ descr @ ''|''
                  @ genesis_hash @ ''|''
   in chain_events s2 = [e0, e1]
    \<and> chain_events s1 = [e0]
    \<and> previous_hash e0 = genesis_hash
    \<and> previous_hash e1
        = sha512_hexdigest L (encode_utf8 (fields @ json_dumps L (PDict [])))
    \<and> event_data e0 = [(''event_hash'', PStr (previous_hash e1))]
    \<and> compute_hash L e0
        = sha512_hexdigest L (encode_utf8
            (fields @ json_dumps L (PDict [(''event_hash'', PStr (previous_hash e1))])))"
proof -
  let ?s0 = "initial_state badge"
  let ?s1 = "add_chain_event L ?s0 ty descr None now"
  let ?s2 = "add_chain_event L ?s1 ty' descr' None now'"
  let ?h = "hashed_event ?s0 ty descr None now"
  let ?fields = "''0|'' @ event_type_value ty @ ''|'' @ now @ ''|'' @ badge @ ''|'' @ descr @ ''|''
                  @ genesis_hash @ ''|''"
  obtain sg where e: "last (chain_events ?s1) =
       ?h\<lparr>event_data := dict_set (event_data ?h) ''event_hash'' (PStr (compute_hash L ?h)),
          signature := sg\<rparr>"
    using add_chain_event_last by blast
  obtain sg' where e': "last (chain_events ?s2) =
       (hashed_event ?s1 ty' descr' None now')
          \<lparr>event_data := dict_set (event_data (hashed_event ?s1 ty' descr' None now')) ''event_hash''
                            (PStr (compute_hash L (hashed_event ?s1 ty' descr' None now'))),
           signature := sg'\<rparr>"
    using add_chain_event_last by blast
  have ev0: "chain_events ?s0 = []"
    by (simp add: initial_state_def)
  have ev1: "chain_events ?s1 = [last (chain_events ?s1)]"
    using add_chain_event_events [of L ?s0 ty descr None now]
    by (simp only: ev0 append_Nil)
  have ev2: "chain_events ?s2 = [last (chain_events ?s1), last (chain_events ?s2)]"
    using add_chain_event_events [of L ?s1 ty' descr' None now'] ev1
    by (metis append_Cons append_Nil)
  have n0: "chain_events ?s2 ! 0 = last (chain_events ?s1)"
    and n1: "chain_events ?s2 ! 1 = last (chain_events ?s2)"
    by (subst ev2, simp)+
  have canon: "canonical L ?h = ?fields @ json_dumps L (PDict [])"
    by (simp add: canonical_def hashed_event_def initial_state_def str_int_0)
  have ph1: "previous_hash (last (chain_events ?s2)) = compute_hash L ?h"
    by (simp add: e' hashed_event_def add_chain_event_chain_hash)
  have ph0: "previous_hash (last (chain_events ?s1)) = genesis_hash"
    by (simp only: e) (simp add: hashed_event_def initial_state_def)
  have dt: "event_data (last (chain_events ?s1)) = [(''event_hash'', PStr (compute_hash L ?h))]"
    by (simp add: e) (simp add: hashed_event_def)
  have ch: "compute_hash L (last (chain_events ?s1)) =
      sha512_hexdigest L (encode_utf8
         (?fields @ json_dumps L (PDict [(''event_hash'', PStr (compute_hash L ?h))])))"
    by (simp add: compute_hash_def canonical_def e)
       (simp add: hashed_event_def initial_state_def str_int_0)
  show ?thesis
    unfolding Let_def n0 n1
    using ev1 ev2 ph0 ph1 dt ch canon by (simp add: compute_hash_def)
qed

section \<open>Proofs: verification of the custody log\<close>

lemma verify_chain_integrity_eq:
  assumes "get_entries_for_evidence lines eid = es" and "es \<noteq> []"
  shows "verify_chain_integrity lines eid = (chain_issues es = [], map issue_text (chain_issues es))"
  using assms by (simp add: verify_chain_integrity_def Let_def)

lemma timestamp_issue_iff:
  "x \<in> set (timestamp_issues es) \<longleftrightarrow>
     (\<exists>j. x = Timestamp_order j \<and> 0 < j \<and> j < length es
          \<and> entry_timestamp (es ! j) < entry_timestamp (es ! (j - 1)))"
  by (auto simp: timestamp_issues_def split: if_splits)

lemma hash_issue_iff:
  "x \<in> set (hash_issues es) \<longleftrightarrow>
     (\<exists>j a b. x = Hash_mismatch j a b \<and> 0 < j \<and> j < length es
          \<and> hash_after (es ! (j - 1)) = Some a \<and> hash_before (es ! j) = Some b
          \<and> a \<noteq> [] \<and> b \<noteq> [] \<and> a \<noteq> b)"
  by (auto simp: hash_issues_def truthy_def Let_def split: if_splits option.splits)

lemma tampering_issue_iff:
  "x \<in> set (tampering_issues es) \<longleftrightarrow>
     (\<exists>j. x = Tampering j (action (es ! j)) \<and> j < length es \<and> is_tampering_detected (es ! j))"
  by (auto simp: tampering_issues_def split: if_splits)

lemma filter_concat_map_cong:
  assumes "\<And>j. j \<in> set js \<Longrightarrow> filter P (f j) = filter P (g j)"
  shows "filter P (concat (map f js)) = filter P (concat (map g js))"
  using assms by (induction js) simp_all

lemma chain_issues_local:
  assumes "i < length es"
  shows "filter (\<lambda>x. issue_index x \<noteq> i \<and> issue_index x \<noteq> Suc i) (chain_issues (es[i := e']))
       = filter (\<lambda>x. issue_index x \<noteq> i \<and> issue_index x \<noteq> Suc i) (chain_issues es)"
proof -
  let ?P = "\<lambda>x. issue_index x \<noteq> i \<and> issue_index x \<noteq> Suc i"
  have nth: "es[i := e'] ! j = es ! j" if "j \<noteq> i" for j
    using that by simp
  have t: "filter ?P (timestamp_issues (es[i := e'])) = filter ?P (timestamp_issues es)"
    unfolding timestamp_issues_def length_list_update
  proof (rule filter_concat_map_cong)
    fix j assume "j \<in> set [1..<length es]"
    show "filter ?P (if entry_timestamp (es[i := e'] ! j) < entry_timestamp (es[i := e'] ! (j - 1))
                     then [Timestamp_order j] else [])
        = filter ?P (if entry_timestamp (es ! j) < entry_timestamp (es ! (j - 1))
                     then [Timestamp_order j] else [])"
    proof (cases "j = i \<or> j = Suc i")
      case True
      then show ?thesis by auto
    next
      case False
      then have "es[i := e'] ! j = es ! j" "es[i := e'] ! (j - 1) = es ! (j - 1)"
        by (auto intro!: nth)
      then show ?thesis by simp
    qed
  qed
  have h: "filter ?P (hash_issues (es[i := e'])) = filter ?P (hash_issues es)"
    unfolding hash_issues_def length_list_update
  proof (rule filter_concat_map_cong)
    fix j assume "j \<in> set [1..<length es]"
    show "filter ?P (let prev_hash_after = hash_after (es[i := e'] ! (j - 1));
                         curr_hash_before = hash_before (es[i := e'] ! j)
                     in if truthy prev_hash_after \<and> truthy curr_hash_before
                           \<and> prev_hash_after \<noteq> curr_hash_before
                        then [Hash_mismatch j (the prev_hash_after) (the curr_hash_before)]
                        else [])
        = filter ?P (let prev_hash_after = hash_after (es ! (j - 1));
                         curr_hash_before = hash_before (es ! j)
                     in if truthy prev_hash_after \<and> truthy curr_hash_before
                           \<and> prev_hash_after \<noteq> curr_hash_before
                        then [Hash_mismatch j (the prev_hash_after) (the curr_hash_before)]
                        else [])"
    proof (cases "j = i \<or> j = Suc i")
      case True
      then show ?thesis by (auto simp: Let_def)
    next
      case False
      then have "es[i := e'] ! j = es ! j" "es[i := e'] ! (j - 1) = es ! (j - 1)"
        by (auto intro!: nth)
      then show ?thesis by simp
    qed
  qed
  have p: "filter ?P (tampering_issues (es[i := e'])) = filter ?P (tampering_issues es)"
    unfolding tampering_issues_def length_list_update
  proof (rule filter_concat_map_cong)
    fix j assume "j \<in> set [0..<length es]"
    show "filter ?P (if is_tampering_detected (es[i := e'] ! j)
                     then [Tampering j (action (es[i := e'] ! j))] else [])
        = filter ?P (if is_tampering_detected (es ! j)
                     then [Tampering j (action (es ! j))] else [])"
    proof (cases "j = i")
      case True
      then show ?thesis by auto
    next
      case False
      then show ?thesis by (simp add: nth)
    qed
  qed
  show ?thesis by (simp add: chain_issues_def t h p)
qed

lemma chain_issues_unread_fields:
  assumes "i < length es"
    and "entry_timestamp e' = entry_timestamp (es ! i)"
    and "hash_before e' = hash_before (es ! i)"
    and "hash_after e' = hash_after (es ! i)"
    and "action e' = action (es ! i)"
  shows "chain_issues (es[i := e']) = chain_issues es"
proof -
  have ts: "entry_timestamp (es[i := e'] ! j) = entry_timestamp (es ! j)"
    and hb: "hash_before (es[i := e'] ! j) = hash_before (es ! j)"
    and ha: "hash_after (es[i := e'] ! j) = hash_after (es ! j)"
    and ac: "action (es[i := e'] ! j) = action (es ! j)" for j
    using assms by (cases "j = i"; simp)+
  have tp: "is_tampering_detected (es[i := e'] ! j) = is_tampering_detected (es ! j)" for j
    by (simp add: is_tampering_detected_def hb ha ac)
  show ?thesis
    by (simp add: chain_issues_def timestamp_issues_def hash_issues_def tampering_issues_def
          ts hb ha ac tp cong: if_cong)
qed

lemma get_entries_append:
  "get_entries_for_evidence (xs @ ys) eid =
     (if Broken_line \<in> set xs then get_entries_for_evidence xs eid
      else get_entries_for_evidence xs eid @ get_entries_for_evidence ys eid)"
  by (induction xs eid rule: get_entries_for_evidence.induct) auto

lemma get_entries_split:
  assumes "k < length lines" and "Broken_line \<notin> set (take k lines)"
  shows "get_entries_for_evidence (lines[k := Entry_line e']) eid =
           get_entries_for_evidence (take k lines) eid
           @ (if evidence_id e' = eid then [e'] else [])
           @ get_entries_for_evidence (drop (Suc k) lines) eid"
proof -
  have "lines[k := Entry_line e'] = take k lines @ Entry_line e' # drop (Suc k) lines"
    using assms(1) by (rule upd_conv_take_nth_drop)
  then show ?thesis
    using assms(2) by (simp add: get_entries_append)
qed

lemma get_entries_read:
  assumes "k < length lines" and "lines ! k = Entry_line e" and "Broken_line \<notin> set (take k lines)"
  shows "get_entries_for_evidence lines eid =
           get_entries_for_evidence (take k lines) eid
           @ (if evidence_id e = eid then [e] else [])
           @ get_entries_for_evidence (drop (Suc k) lines) eid"
proof -
  have "lines[k := Entry_line e] = lines"
    using assms(1,2) by (metis list_update_id)
  then show ?thesis
    using get_entries_split [OF assms(1,3), of e eid] by simp
qed

lemma chain_issues_prefix:
  assumes "issue_index x < length P"
  shows "x \<in> set (chain_issues (P @ Q)) \<longleftrightarrow> x \<in> set (chain_issues P)"
proof (cases x)
  case (Timestamp_order j)
  with assms have j: "j < length P" by simp
  then have "(P @ Q) ! j = P ! j" "(P @ Q) ! (j - 1) = P ! (j - 1)"
    by (simp_all add: nth_append)
  with j show ?thesis
    by (auto simp: chain_issues_def timestamp_issue_iff hash_issue_iff tampering_issue_iff
          Timestamp_order)
next
  case (Hash_mismatch j a b)
  with assms have j: "j < length P" by simp
  then have "(P @ Q) ! j = P ! j" "(P @ Q) ! (j - 1) = P ! (j - 1)"
    by (simp_all add: nth_append)
  with j show ?thesis
    by (auto simp: chain_issues_def timestamp_issue_iff hash_issue_iff tampering_issue_iff
          Hash_mismatch)
next
  case (Tampering j a)
  with assms have j: "j < length P" by simp
  then have "(P @ Q) ! j = P ! j"
    by (simp add: nth_append)
  with j show ?thesis
    by (auto simp: chain_issues_def timestamp_issue_iff hash_issue_iff tampering_issue_iff
          Tampering)
qed

lemma verify_chain_integrity_unfold:
  "verify_chain_integrity lines eid =
     (if get_entries_for_evidence lines eid = [] then (False, [''No chain of custody entries found''])
      else (chain_issues (get_entries_for_evidence lines eid) = [],
            map issue_text (chain_issues (get_entries_for_evidence lines eid))))"
  by (simp add: verify_chain_integrity_def Let_def)

lemma chain_issues_removed_after:
  assumes "Suc (length P) < j"
  shows "(Timestamp_order (j - 1) \<in> set (chain_issues (P @ Q))
            \<longleftrightarrow> Timestamp_order j \<in> set (chain_issues (P @ e # Q)))
       \<and> (Hash_mismatch (j - 1) a b \<in> set (chain_issues (P @ Q))
            \<longleftrightarrow> Hash_mismatch j a b \<in> set (chain_issues (P @ e # Q)))
       \<and> (Tampering (j - 1) c \<in> set (chain_issues (P @ Q))
            \<longleftrightarrow> Tampering j c \<in> set (chain_issues (P @ e # Q)))"
proof -
  obtain m where j: "j = Suc (Suc (length P + m))"
    using assms by (metis add_Suc_right add_Suc less_iff_Suc_add)
  have n1: "(P @ e # Q) ! j = Q ! Suc m" "(P @ e # Q) ! (j - 1) = Q ! m"
    and n2: "(P @ Q) ! (j - 1) = Q ! Suc m" "(P @ Q) ! (j - 1 - 1) = Q ! m"
    by (simp_all add: j nth_append)
  have len: "j - 1 < length (P @ Q) \<longleftrightarrow> j < length (P @ e # Q)" "0 < j - 1" "0 < j"
    by (auto simp: j)
  show ?thesis
    unfolding chain_issues_def set_append Un_iff timestamp_issue_iff hash_issue_iff
      tampering_issue_iff issue.inject issue.distinct
    using n1 n2 len by auto
qed

text \<open>
  Claim C6, as amended. Let line \<open>k\<close> of the log be an entry \<open>e\<close> of the evidence that the
  reader reaches (no unreadable line before it), let \<open>es\<close> be the entries read for the
  evidence and \<open>i\<close> the position of \<open>e\<close> among them. The verification reports exactly the
  issues of \<open>chain_issues es\<close> and succeeds iff there are none; an issue is a timestamp
  inversion between neighbours, or a mismatch between the \<open>hash_after\<close> of an entry and
  the \<open>hash_before\<close> of the next when both are present and not empty, or an entry whose
  own hashes differ under an action that must not change them; a timestamp inversion is
  a kind of issue of its own. No hash over an entry's fields is recomputed. When line
  \<open>k\<close> of the log is overwritten by an entry \<open>e'\<close>:

    \<^item> if \<open>e'\<close> has the evidence identifier, timestamp, hashes and action of \<open>e\<close>, the
      verification of the altered log returns what it returned for the original log,
      whatever the other seven fields of \<open>e'\<close> are;
    \<^item> if \<open>e'\<close> keeps the evidence identifier, the altered log is verified on \<open>es\<close> with
      entry \<open>i\<close> replaced, and the issues found at indices other than \<open>i\<close> and \<open>i + 1\<close>
      are those of the original log;
    \<^item> if \<open>e'\<close> has another evidence identifier, the entry leaves the chain of this
      evidence: the altered log is verified on \<open>es\<close> without entry \<open>i\<close> (the answer is
      ``No chain of custody entries found'' when nothing is left), the issues found
      before index \<open>i\<close> are those of the original log, and an issue is found at index
      \<open>j - 1\<close> exactly when it was found at index \<open>j\<close> in the original log, for
      \<open>j > i + 1\<close>.
\<close>

theorem verify_chain_integrity_checks:
  assumes "k < length lines" and "lines ! k = Entry_line e" and "evidence_id e = eid"
    and "Broken_line \<notin> set (take k lines)"
    and "es = get_entries_for_evidence lines eid"
    and "i = length (get_entries_for_evidence (take k lines) eid)"
  shows "i < length es \<and> es ! i = e
    \<and> verify_chain_integrity lines eid = (chain_issues es = [], map issue_text (chain_issues es))
    \<and> (\<forall>x. x \<in> set (chain_issues es) \<longleftrightarrow>
          (\<exists>j. x = Timestamp_order j \<and> 0 < j \<and> j < length es
               \<and> entry_timestamp (es ! j) < entry_timestamp (es ! (j - 1)))
        \<or> (\<exists>j a b. x = Hash_mismatch j a b \<and> 0 < j \<and> j < length es
               \<and> hash_after (es ! (j - 1)) = Some a \<and> hash_before (es ! j) = Some b
               \<and> a \<noteq> [] \<and> b \<noteq> [] \<and> a \<noteq> b)
        \<or> (\<exists>j. x = Tampering j (action (es ! j)) \<and> j < length es
               \<and> is_tampering_detected (es ! j)))
    \<and> (evidence_id e' = eid \<and> entry_timestamp e' = entry_timestamp e
          \<and> hash_before e' = hash_before e \<and> hash_after e' = hash_after e \<and> action e' = action e
        \<longrightarrow> verify_chain_integrity (lines[k := Entry_line e']) eid
              = verify_chain_integrity lines eid)
    \<and> (evidence_id e' = eid
        \<longrightarrow> get_entries_for_evidence (lines[k := Entry_line e']) eid = es[i := e']
          \<and> verify_chain_integrity (lines[k := Entry_line e']) eid
              = (chain_issues (es[i := e']) = [], map issue_text (chain_issues (es[i := e'])))
          \<and> filter (\<lambda>x. issue_index x \<noteq> i \<and> issue_index x \<noteq> Suc i) (chain_issues (es[i := e']))
              = filter (\<lambda>x. issue_index x \<noteq> i \<and> issue_index x \<noteq> Suc i) (chain_issues es))
    \<and> (evidence_id e' \<noteq> eid
        \<longrightarrow> get_entries_for_evidence (lines[k := Entry_line e']) eid = take i es @ drop (Suc i) es
          \<and> verify_chain_integrity (lines[k := Entry_line e']) eid
              = (if take i es @ drop (Suc i) es = []
                 then (False, [''No chain of custody entries found''])
                 else (chain_issues (take i es @ drop (Suc i) es) = [],
                       map issue_text (chain_issues (take i es @ drop (Suc i) es))))
          \<and> (\<forall>x. issue_index x < i \<longrightarrow>
                (x \<in> set (chain_issues (take i es @ drop (Suc i) es))
                   \<longleftrightarrow> x \<in> set (chain_issues es)))
          \<and> (\<forall>j a b c. Suc i < j \<longrightarrow>
                (Timestamp_order (j - 1) \<in> set (chain_issues (take i es @ drop (Suc i) es))
                   \<longleftrightarrow> Timestamp_order j \<in> set (chain_issues es))
              \<and> (Hash_mismatch (j - 1) a b \<in> set (chain_issues (take i es @ drop (Suc i) es))
                   \<longleftrightarrow> Hash_mismatch j a b \<in> set (chain_issues es))
              \<and> (Tampering (j - 1) c \<in> set (chain_issues (take i es @ drop (Suc i) es))
                   \<longleftrightarrow> Tampering j c \<in> set (chain_issues es))))"
proof -
  define P where "P = get_entries_for_evidence (take k lines) eid"
  define Q where "Q = get_entries_for_evidence (drop (Suc k) lines) eid"
  have es: "es = P @ e # Q"
    using get_entries_read [OF assms(1,2,4), of eid] assms(3,5) by (simp add: P_def Q_def)
  have i: "i = length P"
    using assms(6) by (simp add: P_def)
  have upd: "get_entries_for_evidence (lines[k := Entry_line e']) eid
               = P @ (if evidence_id e' = eid then [e'] else []) @ Q"
    using get_entries_split [OF assms(1,4), of e' eid] by (simp add: P_def Q_def)
  have il: "i < length es" and ei: "es ! i = e" and ne: "es \<noteq> []"
    by (simp_all add: es i)
  have same: "es[i := e'] = P @ e' # Q"
    by (simp add: es i)
  have removed: "take i es @ drop (Suc i) es = P @ Q"
    by (simp add: es i)
  have v: "verify_chain_integrity lines eid
             = (chain_issues es = [], map issue_text (chain_issues es))"
    using ne by (simp add: verify_chain_integrity_unfold assms(5) [symmetric])
  have kinds: "\<forall>x. x \<in> set (chain_issues es) \<longleftrightarrow>
          (\<exists>j. x = Timestamp_order j \<and> 0 < j \<and> j < length es
               \<and> entry_timestamp (es ! j) < entry_timestamp (es ! (j - 1)))
        \<or> (\<exists>j a b. x = Hash_mismatch j a b \<and> 0 < j \<and> j < length es
               \<and> hash_after (es ! (j - 1)) = Some a \<and> hash_before (es ! j) = Some b
               \<and> a \<noteq> [] \<and> b \<noteq> [] \<and> a \<noteq> b)
        \<or> (\<exists>j. x = Tampering j (action (es ! j)) \<and> j < length es
               \<and> is_tampering_detected (es ! j))"
    unfolding chain_issues_def set_append Un_iff
    by (simp only: timestamp_issue_iff hash_issue_iff tampering_issue_iff) blast
  have kept: "get_entries_for_evidence (lines[k := Entry_line e']) eid = es[i := e']
          \<and> verify_chain_integrity (lines[k := Entry_line e']) eid
              = (chain_issues (es[i := e']) = [], map issue_text (chain_issues (es[i := e'])))"
    if "evidence_id e' = eid"
    using that by (simp add: verify_chain_integrity_unfold upd same)
  have unread: "verify_chain_integrity (lines[k := Entry_line e']) eid
              = verify_chain_integrity lines eid"
    if "evidence_id e' = eid" "entry_timestamp e' = entry_timestamp e"
       "hash_before e' = hash_before e" "hash_after e' = hash_after e" "action e' = action e"
  proof -
    have "chain_issues (es[i := e']) = chain_issues es"
      using that(2-5) by (intro chain_issues_unread_fields [OF il]) (simp_all add: ei)
    then show ?thesis
      using kept [OF that(1)] v by simp
  qed
  have gone: "get_entries_for_evidence (lines[k := Entry_line e']) eid = take i es @ drop (Suc i) es
          \<and> verify_chain_integrity (lines[k := Entry_line e']) eid
              = (if take i es @ drop (Suc i) es = []
                 then (False, [''No chain of custody entries found''])
                 else (chain_issues (take i es @ drop (Suc i) es) = [],
                       map issue_text (chain_issues (take i es @ drop (Suc i) es))))"
    if "evidence_id e' \<noteq> eid"
    using that by (simp add: verify_chain_integrity_unfold upd removed)
  have before: "x \<in> set (chain_issues (take i es @ drop (Suc i) es))
                   \<longleftrightarrow> x \<in> set (chain_issues es)" if "issue_index x < i" for x
    using that chain_issues_prefix [of x P Q] chain_issues_prefix [of x P "e # Q"]
    by (simp add: removed es i)
  have after: "(Timestamp_order (j - 1) \<in> set (chain_issues (take i es @ drop (Suc i) es))
                   \<longleftrightarrow> Timestamp_order j \<in> set (chain_issues es))
              \<and> (Hash_mismatch (j - 1) a b \<in> set (chain_issues (take i es @ drop (Suc i) es))
                   \<longleftrightarrow> Hash_mismatch j a b \<in> set (chain_issues es))
              \<and> (Tampering (j - 1) c \<in> set (chain_issues (take i es @ drop (Suc i) es))
                   \<longleftrightarrow> Tampering j c \<in> set (chain_issues es))" if "Suc i < j" for j a b c
    using that chain_issues_removed_after [of P j Q e a b c] by (simp add: removed es i)
  have local: "filter (\<lambda>x. issue_index x \<noteq> i \<and> issue_index x \<noteq> Suc i) (chain_issues (es[i := e']))
              = filter (\<lambda>x. issue_index x \<noteq> i \<and> issue_index x \<noteq> Suc i) (chain_issues es)"
    by (rule chain_issues_local [OF il])
  have c1: "evidence_id e' = eid \<and> entry_timestamp e' = entry_timestamp e
          \<and> hash_before e' = hash_before e \<and> hash_after e' = hash_after e \<and> action e' = action e
        \<longrightarrow> verify_chain_integrity (lines[k := Entry_line e']) eid
              = verify_chain_integrity lines eid"
    using unread by blast
  have c2: "evidence_id e' = eid
        \<longrightarrow> get_entries_for_evidence (lines[k := Entry_line e']) eid = es[i := e']
          \<and> verify_chain_integrity (lines[k := Entry_line e']) eid
              = (chain_issues (es[i := e']) = [], map issue_text (chain_issues (es[i := e'])))
          \<and> filter (\<lambda>x. issue_index x \<noteq> i \<and> issue_index x \<noteq> Suc i) (chain_issues (es[i := e']))
              = filter (\<lambda>x. issue_index x \<noteq> i \<and> issue_index x \<noteq> Suc i) (chain_issues es)"
    using kept local by blast
  have c3: "evidence_id e' \<noteq> eid
        \<longrightarrow> get_entries_for_evidence (lines[k := Entry_line e']) eid = take i es @ drop (Suc i) es
          \<and> verify_chain_integrity (lines[k := Entry_line e']) eid
              = (if take i es @ drop (Suc i) es = []
                 then (False, [''No chain of custody entries found''])
                 else (chain_issues (take i es @ drop (Suc i) es) = [],
                       map issue_text (chain_issues (take i es @ drop (Suc i) es))))
          \<and> (\<forall>x. issue_index x < i \<longrightarrow>
                (x \<in> set (chain_issues (take i es @ drop (Suc i) es))
                   \<longleftrightarrow> x \<in> set (chain_issues es)))
          \<and> (\<forall>j a b c. Suc i < j \<longrightarrow>
                (Timestamp_order (j - 1) \<in> set (chain_issues (take i es @ drop (Suc i) es))
                   \<longleftrightarrow> Timestamp_order j \<in> set (chain_issues es))
              \<and> (Hash_mismatch (j - 1) a b \<in> set (chain_issues (take i es @ drop (Suc i) es))
                   \<longleftrightarrow> Hash_mismatch j a b \<in> set (chain_issues es))
              \<and> (Tampering (j - 1) c \<in> set (chain_issues (take i es @ drop (Suc i) es))
                   \<longleftrightarrow> Tampering j c \<in> set (chain_issues es)))"
    using gone before after by blast
  show ?thesis
    using il ei v kinds c1 c2 c3 by (intro conjI)
qed

lemma example_log_read:
  "Broken_line \<notin> set (take 1 [Header_line, Entry_line upload_entry, Entry_line access_entry])"
  by simp

text \<open>
  The theorem of claim C6 on the log of the two example entries, whose first entry is
  overwritten in three ways: with \<open>details\<close> and \<open>performed_by\<close> rewritten the result of
  the verification is the same; with another timestamp the verified entries are the
  two entries, the first one replaced; with another evidence identifier only the second
  entry is left.
\<close>

theorem verify_chain_integrity_checks_witness:
  "verify_chain_integrity
       [Header_line, Entry_line (upload_entry\<lparr>details := ''forged'', performed_by := ''eve''\<rparr>),
        Entry_line access_entry] ''EV1''
     = verify_chain_integrity [Header_line, Entry_line upload_entry, Entry_line access_entry] ''EV1''
   \<and> get_entries_for_evidence
       [Header_line, Entry_line (upload_entry\<lparr>entry_timestamp := ''2026''\<rparr>), Entry_line access_entry]
       ''EV1''
     = [upload_entry\<lparr>entry_timestamp := ''2026''\<rparr>, access_entry]
   \<and> get_entries_for_evidence
       [Header_line, Entry_line (upload_entry\<lparr>evidence_id := ''EV2''\<rparr>), Entry_line access_entry]
       ''EV1''
     = [access_entry]"
proof -
  let ?lines = "[Header_line, Entry_line upload_entry, Entry_line access_entry]"
  have k: "1 < length ?lines" by simp
  have l: "?lines ! 1 = Entry_line upload_entry" by simp
  have id: "evidence_id upload_entry = ''EV1''" by (simp add: upload_entry_def)
  have es: "[upload_entry, access_entry] = get_entries_for_evidence ?lines ''EV1''"
    by (simp add: upload_entry_def access_entry_def)
  have i: "0 = length (get_entries_for_evidence (take 1 ?lines) ''EV1'')" by simp
  note T = verify_chain_integrity_checks [OF k l id example_log_read es i]
  show ?thesis
    using T [of "upload_entry\<lparr>details := ''forged'', performed_by := ''eve''\<rparr>"]
      T [of "upload_entry\<lparr>entry_timestamp := ''2026''\<rparr>"]
      T [of "upload_entry\<lparr>evidence_id := ''EV2''\<rparr>"]
    by (simp add: upload_entry_def)
qed

text \<open>
  Claim C6 as stated fails. The log of the two example entries verifies; so does the log
  in which the \<open>details\<close> and \<open>performed_by\<close> fields of the first entry were altered, with
  no break reported at any index.
\<close>

theorem verify_chain_integrity_counterexample:
  "verify_chain_integrity [Header_line, Entry_line upload_entry, Entry_line access_entry] ''EV1''
     = (True, [])
   \<and> upload_entry\<lparr>details := ''forged'', performed_by := ''eve''\<rparr> \<noteq> upload_entry
   \<and> verify_chain_integrity
        [Header_line, Entry_line (upload_entry\<lparr>details := ''forged'', performed_by := ''eve''\<rparr>),
         Entry_line access_entry] ''EV1''
     = (True, [])"
  by code_simp

section \<open>Proofs: the frequency-domain watermark\<close>

lemma wavedec_3:
  "wavedec W x 3 =
     [fst (dwt W (fst (dwt W (fst (dwt W x))))),
      snd (dwt W (fst (dwt W (fst (dwt W x))))),
      snd (dwt W (fst (dwt W x))),
      snd (dwt W x)]"
  by (simp add: wavedec_def numeral_3_eq_3 split_beta Let_def)

lemma length_dwt:
  "length (fst (dwt W x)) = dwt_coeff_len (length x)"
  "length (snd (dwt W x)) = dwt_coeff_len (length x)"
  by (simp_all add: dwt_def)

lemma wavedec_3_lengths:
  "map length (wavedec W x 3) =
     [dwt_coeff_len (dwt_coeff_len (dwt_coeff_len (length x))),
      dwt_coeff_len (dwt_coeff_len (dwt_coeff_len (length x))),
      dwt_coeff_len (dwt_coeff_len (length x)),
      dwt_coeff_len (length x)]"
  by (simp add: wavedec_3 length_dwt)

lemma wavedec_3_detail:
  "length (wavedec W x 3 ! Suc 0) = dwt_coeff_len (dwt_coeff_len (dwt_coeff_len (length x)))"
  by (simp add: wavedec_3 length_dwt)

lemma hex_value_not_cont: "hex_value c = Some n \<Longrightarrow> \<not> utf8_cont c"
  by (auto simp: hex_value_def utf8_cont_def Let_def split: if_splits)

lemma fromhex_length:
  "fromhex s = Inr bs \<Longrightarrow> 2 * length bs \<le> length (filter (\<lambda>c. \<not> utf8_cont c) s)"
proof (induction s arbitrary: bs rule: fromhex.induct)
  case 1
  then show ?case by simp
next
  case (2 c s)
  show ?case
  proof (cases "is_space c")
    case True
    with 2 show ?thesis by (auto intro: le_trans)
  next
    case False
    with "2.prems" obtain hi d s' lo bs' where
      c: "hex_value c = Some hi" and s: "s = d # s'" and d: "hex_value d = Some lo"
      and r: "fromhex s' = Inr bs'" and bs: "bs = of_nat (16 * hi + lo) # bs'"
      by (auto split: option.splits list.splits sum.splits)
    from "2.IH"(2) [OF False c s d r]
    have "2 * length bs' \<le> length (filter (\<lambda>c. \<not> utf8_cont c) s')" .
    then show ?thesis
      using hex_value_not_cont [OF c] hex_value_not_cont [OF d] by (simp add: s bs)
  qed
qed

lemma str_take_chars: "length (filter (\<lambda>c. \<not> utf8_cont c) (str_take n s)) \<le> n"
proof (induction n s rule: str_take.induct)
  case (3 n c s)
  have "filter (\<lambda>c. \<not> utf8_cont c) (takeWhile utf8_cont s) = []"
    by (simp add: filter_empty_conv) (meson set_takeWhileD)
  with 3 show ?case by simp
qed simp_all

lemma length_unpackbits: "length (unpackbits bs) = 8 * length bs"
  by (simp add: unpackbits_def length_concat comp_def byte_bits_def sum_list_triv)

text \<open>
  Claim C10. Two hash strings that agree on their first 32 characters give the same
  result of \<open>embed_dwt_watermark\<close> on every signal and strength, and the same result of
  \<open>extract_dwt_watermark\<close>, errors included, whatever the wavelet library computes; and
  the bits embedded and compared are those of at most 16 bytes, at most 128 bits.
\<close>

theorem dwt_watermark_first_32_chars:
  assumes "str_take 32 h1 = str_take 32 h2"
  shows "embed_dwt_watermark W signal h1 strength = embed_dwt_watermark W signal h2 strength
       \<and> extract_dwt_watermark W signal h1 = extract_dwt_watermark W signal h2
       \<and> (case fromhex (str_take 32 h1) of
            Inl e \<Rightarrow> True | Inr hash_bytes \<Rightarrow> length (unpackbits hash_bytes) \<le> 128)"
proof -
  have "length (unpackbits bs) \<le> 128" if "fromhex (str_take 32 h1) = Inr bs" for bs
    using fromhex_length [OF that] str_take_chars [of 32 h1]
    by (simp add: length_unpackbits)
  then show ?thesis
    by (simp add: embed_dwt_watermark_def extract_dwt_watermark_def assms split: sum.splits)
qed

text \<open>
  The theorem of claim C10 at two 34-character hashes that differ in their last two
  characters, on a signal of three samples, for the library instance whose coefficients
  and samples are all zero.
\<close>

theorem dwt_watermark_first_32_chars_witness:
  "embed_dwt_watermark
     \<lparr>dwt_approx = (\<lambda>x i. 0), dwt_detail = (\<lambda>x i. 0), idwt_sample = (\<lambda>a d i. 0)\<rparr>
     [100, 200, 300] ''0123456789abcdef0123456789abcdef00'' 5
   = embed_dwt_watermark
     \<lparr>dwt_approx = (\<lambda>x i. 0), dwt_detail = (\<lambda>x i. 0), idwt_sample = (\<lambda>a d i. 0)\<rparr>
     [100, 200, 300] ''0123456789abcdef0123456789abcdefff'' 5
   \<and> extract_dwt_watermark
     \<lparr>dwt_approx = (\<lambda>x i. 0), dwt_detail = (\<lambda>x i. 0), idwt_sample = (\<lambda>a d i. 0)\<rparr>
     [100, 200, 300] ''0123456789abcdef0123456789abcdef00''
   = extract_dwt_watermark
     \<lparr>dwt_approx = (\<lambda>x i. 0), dwt_detail = (\<lambda>x i. 0), idwt_sample = (\<lambda>a d i. 0)\<rparr>
     [100, 200, 300] ''0123456789abcdef0123456789abcdefff''"
proof -
  have p: "str_take 32 ''0123456789abcdef0123456789abcdef00''
         = str_take 32 ''0123456789abcdef0123456789abcdefff''"
    by code_simp
  from dwt_watermark_first_32_chars [OF p] show ?thesis
    by blast
qed

text \<open>
  Claim C8. \<open>wavedec\<close> at level 3 returns the arrays \<open>[cA3, cD3, cD2, cD1]\<close>, of the
  lengths below; \<open>embed_dwt_watermark\<close> modulates and counts \<open>coeffs[1]\<close>, which is
  \<open>cD3\<close>, the coarsest detail level, not the first-level detail \<open>cD1\<close> that its comment
  and the claim name. For 2560 samples these are 326 coefficients (the first level has
  1283). For 250 samples the first level has 128 coefficients, as many as the 128 bits of
  a 32-digit hash, and yet embedding fails with the capacity error, because \<open>cD3\<close> has
  37.
\<close>

theorem embed_dwt_watermark_detail_level:
  "map length (wavedec W x 3) =
     [dwt_coeff_len (dwt_coeff_len (dwt_coeff_len (length x))),
      dwt_coeff_len (dwt_coeff_len (dwt_coeff_len (length x))),
      dwt_coeff_len (dwt_coeff_len (length x)),
      dwt_coeff_len (length x)]
   \<and> dwt_coeff_len 2560 = 1283
   \<and> dwt_coeff_len (dwt_coeff_len (dwt_coeff_len 2560)) = 326
   \<and> dwt_coeff_len 250 = 128
   \<and> dwt_coeff_len (dwt_coeff_len (dwt_coeff_len 250)) = 37
   \<and> fromhex (str_take 32 ''0123456789abcdef0123456789abcdef'')
       = Inr [0x01, 0x23, 0x45, 0x67, 0x89, 0xab, 0xcd, 0xef,
              0x01, 0x23, 0x45, 0x67, 0x89, 0xab, 0xcd, 0xef]
   \<and> embed_dwt_watermark W (replicate 250 v) ''0123456789abcdef0123456789abcdef'' strength
       = Inl (ValueError ''Signal too short for DWT watermarking'')"
proof -
  have fh: "fromhex (str_take 32 ''0123456789abcdef0123456789abcdef'')
       = Inr [0x01, 0x23, 0x45, 0x67, 0x89, 0xab, 0xcd, 0xef,
              0x01, 0x23, 0x45, 0x67, 0x89, 0xab, 0xcd, 0xef]"
    by code_simp
  have l: "dwt_coeff_len 2560 = 1283" "dwt_coeff_len (dwt_coeff_len (dwt_coeff_len 2560)) = 326"
    "dwt_coeff_len 250 = 128" "dwt_coeff_len (dwt_coeff_len (dwt_coeff_len 250)) = 37"
    by (simp_all add: dwt_coeff_len_def dec_len_def)
  have "embed_dwt_watermark W (replicate 250 v) ''0123456789abcdef0123456789abcdef'' strength
       = Inl (ValueError ''Signal too short for DWT watermarking'')"
    unfolding embed_dwt_watermark_def fh
    by (simp add: Let_def wavedec_3_detail astype_float_def length_unpackbits
          dwt_coeff_len_def dec_len_def)
  then show ?thesis
    using fh l wavedec_3_lengths [of W x] by simp
qed

section \<open>Proofs: authenticated encryption\<close>

lemma b64_value_char: "n < 64 \<Longrightarrow> b64_value (b64_char n) = Some n"
  by (auto simp: b64_value_def b64_char_def Let_def)

lemma b64_value_pad: "b64_value CHR ''='' = None"
  by (simp add: b64_value_def)

lemma b64_char_not_pad: "n < 64 \<Longrightarrow> b64_char n \<noteq> CHR ''=''"
  using b64_value_char [of n] b64_value_pad by auto

lemma b64_char_ascii: "n < 64 \<Longrightarrow> (of_char (b64_char n) :: nat) < 128"
  by (auto simp: b64_char_def)

lemma a2b_data_char:
  assumes "n < 64"
  shows "a2b_loop q l p out (b64_char n # rest) =
     (if q = 0 then a2b_loop 1 n 0 out rest
      else if q = 1 then a2b_loop 2 (n mod 16) 0 (out @ [of_nat (l * 4 + n div 16)]) rest
      else if q = 2 then a2b_loop 3 (n mod 4) 0 (out @ [of_nat (l * 16 + n div 4)]) rest
      else a2b_loop 0 0 0 (out @ [of_nat (l * 64 + n)]) rest)"
  using b64_char_not_pad [OF assms] b64_value_char [OF assms] by simp



lemma unat8_lt: "unat (a :: 8 word) < 256"
  using unsigned_less [of a, where ?'a = nat] by simp

lemma div_comb: "y < m \<Longrightarrow> (k * m + y) div m = (k :: nat)"
  by simp

lemma mod_comb: "y < m \<Longrightarrow> (k * m + y) mod m = (y :: nat)"
  by simp

lemma byte1: "of_nat (unat a div 4 * 4 + (unat a mod 4 * 16 + y) div 16) = (a :: 8 word)"
  if "y < 16" for y
proof -
  have "(unat a mod 4 * 16 + y) div 16 = unat a mod 4"
    using that by (rule div_comb)
  then have "unat a div 4 * 4 + (unat a mod 4 * 16 + y) div 16 = unat a"
    by simp
  then show ?thesis by simp
qed

lemma byte2: "of_nat ((k * 16 + unat b div 16) mod 16 * 16 + (unat b mod 16 * 4 + w) div 4)
                = (b :: 8 word)"
  if "w < 4" for w k
proof -
  have "unat b div 16 < 16" using unat8_lt [of b] by simp
  then have 1: "(k * 16 + unat b div 16) mod 16 = unat b div 16"
    by (rule mod_comb)
  have 2: "(unat b mod 16 * 4 + w) div 4 = unat b mod 16"
    using that by (rule div_comb)
  have "(k * 16 + unat b div 16) mod 16 * 16 + (unat b mod 16 * 4 + w) div 4 = unat b"
    unfolding 1 2 by simp
  then show ?thesis by simp
qed

lemma byte3: "of_nat ((k * 4 + unat c div 64) mod 4 * 64 + unat c mod 64) = (c :: 8 word)"
proof -
  have "unat c div 64 < 4" using unat8_lt [of c] by simp
  then have 1: "(k * 4 + unat c div 64) mod 4 = unat c div 64"
    by (rule mod_comb)
  have "(k * 4 + unat c div 64) mod 4 * 64 + unat c mod 64 = unat c"
    unfolding 1 by simp
  then show ?thesis by simp
qed

lemma b64_bounds:
  "unat (a :: 8 word) div 4 < 64"
  "unat a mod 4 * 16 < 64"
  "unat a mod 4 * 16 + unat (b :: 8 word) div 16 < 64"
  "unat b mod 16 * 4 < 64"
  "unat b mod 16 * 4 + unat (c :: 8 word) div 64 < 64"
  "unat c mod 64 < 64"
proof -
  have a: "unat a < 256" and b: "unat b < 256" and c: "unat c < 256"
    by (rule unat8_lt)+
  show "unat a div 4 < 64" using a by simp
  have "unat a mod 4 < 4" by simp
  then have m: "unat a mod 4 * 16 \<le> 48" by linarith
  then show "unat a mod 4 * 16 < 64" by simp
  have "unat b div 16 < 16" using b by simp
  with m show "unat a mod 4 * 16 + unat b div 16 < 64" by linarith
  have "unat b mod 16 < 16" by simp
  then have n: "unat b mod 16 * 4 \<le> 60" by linarith
  then show "unat b mod 16 * 4 < 64" by simp
  have "unat c div 64 < 4" using c by simp
  with n show "unat b mod 16 * 4 + unat c div 64 < 64" by linarith
  show "unat c mod 64 < 64" by simp
qed

lemma a2b_pad2: "a2b_loop 2 l 0 out ''=='' = Inr out"
  by simp

lemma a2b_pad1: "a2b_loop 3 l 0 out ''='' = Inr out"
  by simp

lemma a2b_encode: "a2b_loop 0 l p out (b64encode bs) = Inr (out @ bs)"
proof (induction bs arbitrary: l p out rule: b64encode.induct)
  case 1
  then show ?case by simp
next
  case (2 a)
  have "a2b_loop 0 l p out (b64encode [a])
      = a2b_loop 2 ((unat a mod 4 * 16) mod 16) 0
          (out @ [of_nat (unat a div 4 * 4 + (unat a mod 4 * 16 + 0) div 16)]) ''==''"
    by (simp add: a2b_data_char b64_bounds del: a2b_loop.simps)
  also have "\<dots> = Inr (out @ [of_nat (unat a div 4 * 4 + (unat a mod 4 * 16 + 0) div 16)])"
    by (rule a2b_pad2)
  also have "of_nat (unat a div 4 * 4 + (unat a mod 4 * 16 + 0) div 16) = a"
    by (rule byte1) simp
  finally show ?case by simp
next
  case (3 a b)
  have "a2b_loop 0 l p out (b64encode [a, b])
      = a2b_loop 3 ((unat b mod 16 * 4) mod 4) 0
          (out @ [of_nat (unat a div 4 * 4 + (unat a mod 4 * 16 + unat b div 16) div 16)]
               @ [of_nat ((unat a mod 4 * 16 + unat b div 16) mod 16 * 16
                          + (unat b mod 16 * 4 + 0) div 4)]) ''=''"
    by (simp add: a2b_data_char b64_bounds del: a2b_loop.simps)
  also have "\<dots> = Inr (out @ [of_nat (unat a div 4 * 4 + (unat a mod 4 * 16 + unat b div 16) div 16)]
               @ [of_nat ((unat a mod 4 * 16 + unat b div 16) mod 16 * 16
                          + (unat b mod 16 * 4 + 0) div 4)])"
    by (rule a2b_pad1)
  also have "of_nat (unat a div 4 * 4 + (unat a mod 4 * 16 + unat b div 16) div 16) = a"
    using unat8_lt [of b] by (intro byte1) simp
  also have "of_nat ((unat a mod 4 * 16 + unat b div 16) mod 16 * 16
                          + (unat b mod 16 * 4 + 0) div 4) = b"
    by (rule byte2) simp
  finally show ?case by simp
next
  case (4 a b c rest)
  have "a2b_loop 0 l p out (b64encode (a # b # c # rest))
      = a2b_loop 0 0 0
          (out @ [of_nat (unat a div 4 * 4 + (unat a mod 4 * 16 + unat b div 16) div 16)]
               @ [of_nat ((unat a mod 4 * 16 + unat b div 16) mod 16 * 16
                          + (unat b mod 16 * 4 + unat c div 64) div 4)]
               @ [of_nat ((unat b mod 16 * 4 + unat c div 64) mod 4 * 64 + unat c mod 64)])
          (b64encode rest)"
    by (simp add: a2b_data_char b64_bounds del: a2b_loop.simps)
  also have "of_nat (unat a div 4 * 4 + (unat a mod 4 * 16 + unat b div 16) div 16) = a"
    using unat8_lt [of b] by (intro byte1) simp
  also have "of_nat ((unat a mod 4 * 16 + unat b div 16) mod 16 * 16
                          + (unat b mod 16 * 4 + unat c div 64) div 4) = b"
    using unat8_lt [of c] by (intro byte2) simp
  also have "of_nat ((unat b mod 16 * 4 + unat c div 64) mod 4 * 64 + unat c mod 64) = c"
    by (rule byte3)
  also have "a2b_loop 0 0 0 (out @ [a] @ [b] @ [c]) (b64encode rest)
           = Inr ((out @ [a] @ [b] @ [c]) @ rest)"
    by (rule "4.IH")
  finally show ?case by simp
qed

lemma b64encode_ascii: "c \<in> set (b64encode bs) \<Longrightarrow> (of_char c :: nat) < 128"
  by (induction bs rule: b64encode.induct) (auto simp: b64_char_ascii b64_bounds)

lemma b64decode_b64encode: "b64decode (b64encode bs) = Inr bs"
proof -
  have "\<not> (\<exists>c \<in> set (b64encode bs). (of_char c :: nat) \<ge> 128)"
    using b64encode_ascii [of _ bs] by (auto simp: not_le)
  then show ?thesis
    using a2b_encode [of 0 0 "[]" bs] by (simp add: b64decode_def)
qed

lemma ctr_xor_involution: "ctr_xor G key nonce (ctr_xor G key nonce bs) = bs"
  by (rule nth_equalityI) (simp_all add: ctr_xor_def nth_enumerate_eq xor.assoc)

lemma aes_new_gcm_ok: "length key = 32 \<Longrightarrow> nonce \<noteq> [] \<Longrightarrow> aes_new_gcm key nonce = Inr ()"
  by (simp add: aes_new_gcm_def)

lemma encrypt_data_gcm_eq:
  assumes "length key = 32" and "nonce \<noteq> []"
  shows "encrypt_data_gcm G key nonce plaintext metadata =
     Inr [''ciphertext'' \<mapsto> b64encode (ctr_xor G key nonce plaintext),
          ''nonce'' \<mapsto> b64encode nonce,
          ''tag'' \<mapsto> b64encode (gcm_tag G key nonce (encode_utf8 metadata)
                                   (ctr_xor G key nonce plaintext)),
          ''key'' \<mapsto> b64encode key,
          ''metadata_hash'' \<mapsto> sha256_hexdigest G (encode_utf8 metadata)]"
  by (simp add: encrypt_data_gcm_def aes_new_gcm_ok [OF assms] encrypt_and_digest_def Let_def)

lemma decrypt_data_gcm_eq:
  assumes "length key = 32" and "nonce \<noteq> []"
    and "b ''key'' = Some (b64encode key)" and "b ''nonce'' = Some (b64encode nonce)"
    and "b ''tag'' = Some (b64encode tag)" and "b ''ciphertext'' = Some (b64encode ciphertext)"
  shows "decrypt_data_gcm G b metadata =
     (if gcm_tag G key nonce (encode_utf8 metadata) ciphertext = tag
      then Inr (ctr_xor G key nonce ciphertext)
      else Inl (ValueError ''Decryption failed: Data tampered or metadata mismatch''))"
  by (simp add: decrypt_data_gcm_def b64decode_field_def getitem_def assms(3-6)
        b64decode_b64encode aes_new_gcm_ok [OF assms(1,2)] decrypt_and_verify_def)





text \<open>
  Claim C3. For every plaintext and metadata string, every 32-byte key and every
  non-empty nonce that \<open>encrypt_data_gcm\<close> may draw, encryption returns a bundle and
  \<open>decrypt_data_gcm\<close> on that bundle with the same metadata returns the plaintext. The
  bundle holds the key, and its tag is the tag of the cipher over the metadata as
  associated data. This holds for every cipher of the structure of GCM.
\<close>

theorem encrypt_decrypt_roundtrip:
  assumes "length key = 32" and "nonce \<noteq> []"
  shows "\<exists>b. encrypt_data_gcm G key nonce plaintext metadata = Inr b
           \<and> decrypt_data_gcm G b metadata = Inr plaintext
           \<and> b ''key'' = Some (b64encode key)
           \<and> b ''tag'' = Some (b64encode (gcm_tag G key nonce (encode_utf8 metadata)
                                            (ctr_xor G key nonce plaintext)))"
proof -
  let ?ct = "ctr_xor G key nonce plaintext"
  let ?tag = "gcm_tag G key nonce (encode_utf8 metadata) ?ct"
  let ?b = "[''ciphertext'' \<mapsto> b64encode ?ct, ''nonce'' \<mapsto> b64encode nonce,
             ''tag'' \<mapsto> b64encode ?tag, ''key'' \<mapsto> b64encode key,
             ''metadata_hash'' \<mapsto> sha256_hexdigest G (encode_utf8 metadata)]"
  have enc: "encrypt_data_gcm G key nonce plaintext metadata = Inr ?b"
    by (rule encrypt_data_gcm_eq [OF assms])
  have "decrypt_data_gcm G ?b metadata =
     (if gcm_tag G key nonce (encode_utf8 metadata) ?ct = ?tag
      then Inr (ctr_xor G key nonce ?ct)
      else Inl (ValueError ''Decryption failed: Data tampered or metadata mismatch''))"
    by (rule decrypt_data_gcm_eq [OF assms]) simp_all
  then have dec: "decrypt_data_gcm G ?b metadata = Inr plaintext"
    by (simp add: ctr_xor_involution)
  show ?thesis
    by (intro exI [of _ ?b] conjI enc dec) simp_all
qed

text \<open>The round trip at a concrete key, nonce, plaintext and metadata, for the example
  instance of the cipher.\<close>

theorem encrypt_decrypt_roundtrip_witness:
  "\<exists>b. encrypt_data_gcm example_gcm_lib (replicate 32 7) (replicate 16 9) [72, 105] ''CASE-1'' = Inr b
      \<and> decrypt_data_gcm example_gcm_lib b ''CASE-1'' = Inr [72, 105]
      \<and> b ''key'' = Some (b64encode (replicate 32 7))
      \<and> b ''tag'' = Some (b64encode (gcm_tag example_gcm_lib (replicate 32 7) (replicate 16 9)
             (encode_utf8 ''CASE-1'') (ctr_xor example_gcm_lib (replicate 32 7) (replicate 16 9) [72, 105])))"
  by (rule encrypt_decrypt_roundtrip) simp_all












end
